theory Spec2Isabelle
  imports Main
begin

section \<open>The package \<open>rw\<close>: helpers for files, CSV, standard input and tables\<close>

text \<open>
  The Go package \<open>rw\<close> (file \<open>rw.go\<close>) is a set of independent helper functions.
  A Go \<open>string\<close> is a sequence of bytes, modelled as \<open>string\<close> (a list of 8-bit
  characters); \<open>len\<close> is \<open>length\<close>. A \<open>[]string\<close> is a \<open>string list\<close>
  (a nil slice and an empty slice are both \<open>[]\<close>). Calls of \<open>log.Printf\<close> and
  \<open>log.Println\<close> write to the process logger only and are left out of the model:
  no result of any function depends on them.
\<close>

subsection \<open>Bytes used by the code\<close>

definition TAB :: char where "TAB = CHR 0x09"
definition NL :: char where "NL = CHR 0x0A"
definition CR :: char where "CR = CHR 0x0D"
definition DQUOTE :: char where "DQUOTE = CHR 0x22"
definition COMMA :: char where "COMMA = CHR 0x2C"

subsection \<open>Functions of package \<open>strings\<close> the code calls\<close>

text \<open>
  \<open>strings.TrimRight(s, cutset)\<close> removes every trailing code point of \<open>s\<close> that
  occurs in \<open>cutset\<close>. Both cutsets of the code (\<open>", "\<close> and \<open>"\r\n"\<close>) are ASCII,
  and no byte of a multi-byte UTF-8 sequence is ASCII, so the function works byte by
  byte here.
\<close>

definition TrimRight :: "string \<Rightarrow> string \<Rightarrow> string" where
  "TrimRight s cutset = rev (dropWhile (\<lambda>c. c \<in> set cutset) (rev s))"

text \<open>
  \<open>unicode.IsSpace\<close> holds for the code points U+0009 to U+000D, U+0020, U+0085,
  U+00A0, U+1680, U+2000 to U+200A, U+2028, U+2029, U+202F, U+205F and U+3000. The list
  gives their UTF-8 encodings; a string starts (ends) with a white-space code point iff
  one of them is a prefix (suffix) of it.
\<close>

definition space_runes :: "string list" where
  "space_runes =
     [[CHR 0x09], [CHR 0x0A], [CHR 0x0B], [CHR 0x0C], [CHR 0x0D], [CHR 0x20],
      [CHR 0xC2, CHR 0x85], [CHR 0xC2, CHR 0xA0],
      [CHR 0xE1, CHR 0x9A, CHR 0x80],
      [CHR 0xE2, CHR 0x80, CHR 0x80], [CHR 0xE2, CHR 0x80, CHR 0x81],
      [CHR 0xE2, CHR 0x80, CHR 0x82], [CHR 0xE2, CHR 0x80, CHR 0x83],
      [CHR 0xE2, CHR 0x80, CHR 0x84], [CHR 0xE2, CHR 0x80, CHR 0x85],
      [CHR 0xE2, CHR 0x80, CHR 0x86], [CHR 0xE2, CHR 0x80, CHR 0x87],
      [CHR 0xE2, CHR 0x80, CHR 0x88], [CHR 0xE2, CHR 0x80, CHR 0x89],
      [CHR 0xE2, CHR 0x80, CHR 0x8A], [CHR 0xE2, CHR 0x80, CHR 0xA8],
      [CHR 0xE2, CHR 0x80, CHR 0xA9], [CHR 0xE2, CHR 0x80, CHR 0xAF],
      [CHR 0xE2, CHR 0x81, CHR 0x9F], [CHR 0xE3, CHR 0x80, CHR 0x80]]"

definition leading_space :: "string \<Rightarrow> string option" where
  "leading_space s = find (\<lambda>p. take (length p) s = p) space_runes"

fun TrimLeftSpace :: "nat \<Rightarrow> string \<Rightarrow> string" where
  "TrimLeftSpace 0 s = s"
| "TrimLeftSpace (Suc n) s =
     (case leading_space s of
        None \<Rightarrow> s
      | Some p \<Rightarrow> TrimLeftSpace n (drop (length p) s))"

text \<open>
  \<open>strings.TrimSpace(s)\<close>: all leading and all trailing white space removed. Every
  removal drops at least one byte, so \<open>length s\<close> rounds are enough for either side;
  the trailing side is the leading side of the reversed string with reversed encodings.
\<close>

definition trailing_space :: "string \<Rightarrow> string option" where
  "trailing_space s = find (\<lambda>p. take (length p) (rev s) = rev p) space_runes"

fun TrimRightSpace :: "nat \<Rightarrow> string \<Rightarrow> string" where
  "TrimRightSpace 0 s = s"
| "TrimRightSpace (Suc n) s =
     (case trailing_space s of
        None \<Rightarrow> s
      | Some p \<Rightarrow> TrimRightSpace n (take (length s - length p) s))"

definition TrimSpace :: "string \<Rightarrow> string" where
  "TrimSpace s = (let t = TrimLeftSpace (length s) s in TrimRightSpace (length t) t)"

subsection \<open>List helpers\<close>

text \<open>
  \<^verbatim>\<open>func ConcatListNicely(list []string) string {
      var res string
      for _, r := range list {
          if r != "" { res += fmt.Sprintf("%s, ", r) }
      }
      return strings.TrimRight(res, ", ")
  }\<close>
\<close>

fun ConcatListNicely_loop :: "string \<Rightarrow> string list \<Rightarrow> string" where
  "ConcatListNicely_loop res [] = res"
| "ConcatListNicely_loop res (r # rs) =
     (if r \<noteq> [] then ConcatListNicely_loop (res @ r @ '', '') rs
      else ConcatListNicely_loop res rs)"

definition ConcatListNicely :: "string list \<Rightarrow> string" where
  "ConcatListNicely list = TrimRight (ConcatListNicely_loop [] list) '', ''"

text \<open>
  \<^verbatim>\<open>func SplitLines(lines []string, sep string) (splines [][]string) {
      for _, l := range lines {
          tmp := strings.Split(l, sep)
          splines = append(splines, tmp)
      }
      return
  }\<close>
  \<open>strings.Split\<close> is library code; \<open>SplitLines\<close> takes it as the parameter
  \<open>Split\<close>, so what is proved of the loop holds for the library's function.
\<close>

fun SplitLines_loop ::
  "(string \<Rightarrow> string \<Rightarrow> string list) \<Rightarrow> string \<Rightarrow> string list list \<Rightarrow> string list
    \<Rightarrow> string list list" where
  "SplitLines_loop Split sep splines [] = splines"
| "SplitLines_loop Split sep splines (l # ls) =
     SplitLines_loop Split sep (splines @ [Split l sep]) ls"

definition SplitLines ::
  "(string \<Rightarrow> string \<Rightarrow> string list) \<Rightarrow> string list \<Rightarrow> string \<Rightarrow> string list list" where
  "SplitLines Split lines sep = SplitLines_loop Split sep [] lines"

text \<open>
  A model of \<open>strings.Split\<close> for a separator that is not empty: the pieces of \<open>s\<close>
  between the leftmost, non-overlapping occurrences of \<open>sep\<close> (\<open>cur\<close> is the piece
  being read). It instantiates \<open>Split\<close> on concrete inputs.
\<close>

fun split_sep :: "string \<Rightarrow> string \<Rightarrow> string \<Rightarrow> string list" where
  "split_sep sep cur [] = [cur]"
| "split_sep sep cur (c # s) =
     (if sep \<noteq> [] \<and> take (length sep) (c # s) = sep
      then cur # split_sep sep [] (drop (length sep - 1) s)
      else split_sep sep (cur @ [c]) s)"

subsection \<open>The file system and the process, as the code sees them\<close>

text \<open>
  The code reaches the operating system through \<open>filepath.Abs\<close>, \<open>os.Stat\<close>,
  \<open>os.Open\<close>, \<open>os.Create\<close>, \<open>os.ReadFile\<close> and \<open>Close\<close>. The state they
  work on is a record: \<open>abs_path\<close> is \<open>filepath.Abs\<close> under the current working
  directory, \<open>nodes\<close> says what is at each absolute path, and \<open>open_handles\<close> lists
  the paths of the file handles that are open (one entry per handle).

  At a path there is nothing (\<open>Absent\<close>: \<open>stat\<close> and \<open>open\<close> fail with "does not
  exist", \<open>create\<close> makes the file), a regular file with its bytes, or an obstacle
  (\<open>Blocked e\<close>: every call on the path fails with \<open>e\<close>, as for a directory on the
  way that cannot be searched or does not exist). The empty path always fails with
  "does not exist". Writes to an open file succeed.
\<close>

datatype os_error = ErrNotExist | ErrPermission | ErrOther string

definition os_IsNotExist :: "os_error \<Rightarrow> bool" where
  "os_IsNotExist e = (e = ErrNotExist)"

datatype node = Absent | Regular string | Blocked os_error

record world =
  abs_path :: "string \<Rightarrow> os_error + string"
  nodes :: "string \<Rightarrow> node"
  open_handles :: "string list"

definition node_at :: "world \<Rightarrow> string \<Rightarrow> node" where
  "node_at w p = (if p = [] then Blocked ErrNotExist else nodes w p)"

definition os_Stat :: "world \<Rightarrow> string \<Rightarrow> os_error option" where
  "os_Stat w p =
     (case node_at w p of
        Absent \<Rightarrow> Some ErrNotExist
      | Regular c \<Rightarrow> None
      | Blocked e \<Rightarrow> Some e)"

definition os_Open :: "world \<Rightarrow> string \<Rightarrow> (os_error + string) \<times> world" where
  "os_Open w p =
     (case node_at w p of
        Absent \<Rightarrow> (Inl ErrNotExist, w)
      | Regular c \<Rightarrow> (Inr p, w\<lparr>open_handles := p # open_handles w\<rparr>)
      | Blocked e \<Rightarrow> (Inl e, w))"

definition os_Create :: "world \<Rightarrow> string \<Rightarrow> (os_error + string) \<times> world" where
  "os_Create w p =
     (case node_at w p of
        Blocked e \<Rightarrow> (Inl e, w)
      | _ \<Rightarrow> (Inr p, w\<lparr>nodes := (nodes w)(p := Regular []),
                         open_handles := p # open_handles w\<rparr>))"

definition os_Close :: "world \<Rightarrow> string \<Rightarrow> world" where
  "os_Close w f = w\<lparr>open_handles := remove1 f (open_handles w)\<rparr>"

definition file_content :: "world \<Rightarrow> string \<Rightarrow> string" where
  "file_content w f = (case nodes w f of Regular c \<Rightarrow> c | _ \<Rightarrow> [])"

definition file_append :: "world \<Rightarrow> string \<Rightarrow> string \<Rightarrow> world" where
  "file_append w f bs =
     (case nodes w f of
        Regular c \<Rightarrow> w\<lparr>nodes := (nodes w)(f := Regular (c @ bs))\<rparr>
      | _ \<Rightarrow> w)"

text \<open>\<open>os.ReadFile\<close> opens the file, reads all of it and closes it again.\<close>

definition os_ReadFile :: "world \<Rightarrow> string \<Rightarrow> os_error + string" where
  "os_ReadFile w p =
     (case node_at w p of
        Absent \<Rightarrow> Inl ErrNotExist
      | Regular c \<Rightarrow> Inr c
      | Blocked e \<Rightarrow> Inl e)"

subsection \<open>Path validation\<close>

text \<open>
  \<^verbatim>\<open>func FileExists(fp string) bool {
      _, err := os.Stat(fp)
      if err != nil {
          log.Println(err)
          return !os.IsNotExist(err)
      }
      return true
  }\<close>
\<close>

definition FileExists :: "world \<Rightarrow> string \<Rightarrow> bool" where
  "FileExists w fp =
     (case os_Stat w fp of
        Some err \<Rightarrow> \<not> os_IsNotExist err
      | None \<Rightarrow> True)"

definition ValidateFilepath :: "world \<Rightarrow> string \<Rightarrow> string" where
  "ValidateFilepath w file =
     (case abs_path w file of
        Inl err \<Rightarrow> []
      | Inr fp \<Rightarrow> (case os_Stat w fp of Some err \<Rightarrow> [] | None \<Rightarrow> fp))"

subsection \<open>Package \<open>encoding/csv\<close> with its default settings\<close>

text \<open>
  \<open>ReadCsvFile\<close> and \<open>CommaSep\<close> use \<open>csv.NewReader\<close> and \<open>csv.NewWriter\<close> as
  they come: the delimiter is a comma, no comment character, \<open>LazyQuotes\<close>,
  \<open>TrimLeadingSpace\<close> and \<open>UseCRLF\<close> are off, and \<open>FieldsPerRecord\<close> starts at 0, so
  the first record read fixes the number of fields of every later one. The definitions
  follow the library's \<open>readLine\<close>, \<open>readRecord\<close>, \<open>fieldNeedsQuotes\<close> and
  \<open>Write\<close>, on the bytes of the file that are still unread. A read of the file itself
  never fails here, so the only errors of \<open>Read\<close> are the end of the file and the
  three parse errors.

  \<open>lengthNL b\<close> is 1 when \<open>b\<close> ends with a newline and 0 otherwise.
  \<open>normalizeNL\<close> is the end of \<open>readLine\<close>: a line that ends with CR LF ends with LF
  instead.
\<close>

definition lengthNL :: "string \<Rightarrow> nat" where
  "lengthNL b = (if b \<noteq> [] \<and> last b = NL then 1 else 0)"

definition normalizeNL :: "string \<Rightarrow> string" where
  "normalizeNL line =
     (let n = length line in
      if 2 \<le> n \<and> line ! (n - 2) = CR \<and> line ! (n - 1) = NL
      then take (n - 2) line @ [NL] else line)"

datatype csv_error = EOF | ErrBareQuote | ErrQuote | ErrFieldCount

text \<open>
  \<open>readLine\<close> takes the bytes up to and with the next newline. Without a newline it
  takes all that is left, drops one trailing CR, and reports the end of the file only
  when nothing was left. The result is the line, the error, and the bytes still unread.
\<close>

definition readLine :: "string \<Rightarrow> string \<times> csv_error option \<times> string" where
  "readLine inp =
     (case dropWhile (\<lambda>c. c \<noteq> NL) inp of
        [] \<Rightarrow>
          if inp = [] then ([], Some EOF, [])
          else (normalizeNL (if last inp = CR then butlast inp else inp), None, [])
      | c # rest \<Rightarrow> (normalizeNL (takeWhile (\<lambda>c. c \<noteq> NL) inp @ [NL]), None, rest))"

lemma length_normalizeNL: "length (normalizeNL l) \<le> length l"
  by (auto simp: normalizeNL_def Let_def)

lemma length_split_NL:
  "dropWhile (\<lambda>c. c \<noteq> NL) inp = c # rest \<Longrightarrow>
   length inp = Suc (length (takeWhile (\<lambda>c. c \<noteq> NL) inp) + length rest)"
  using arg_cong [OF takeWhile_dropWhile_id [of "\<lambda>c. c \<noteq> NL" inp], of length]
  by simp

lemma readLine_length:
  assumes "(line, err, rest) = readLine inp"
  shows "length line + length rest \<le> length inp"
proof (cases "dropWhile (\<lambda>c. c \<noteq> NL) inp")
  case Nil
  with assms have "rest = []" and "length line \<le> length inp"
    using length_normalizeNL [of "butlast inp"] length_normalizeNL [of inp]
    by (auto simp: readLine_def split: if_splits)
  then show ?thesis by simp
next
  case (Cons c r)
  with assms have "rest = r" and "line = normalizeNL (takeWhile (\<lambda>c. c \<noteq> NL) inp @ [NL])"
    by (auto simp: readLine_def)
  then show ?thesis
    using length_split_NL [OF Cons] length_normalizeNL [of "takeWhile (\<lambda>c. c \<noteq> NL) inp @ [NL]"]
    by simp
qed

lemma length_dropWhile_minus:
  "x \<in> set line \<Longrightarrow> length (dropWhile P line) - Suc n < length line"
  using length_dropWhile_le [of P line] by (cases line) auto

lemma readLine_rest_less:
  assumes "(line, None, rest) = readLine inp"
  shows "length rest < length inp"
proof (cases "dropWhile (\<lambda>c. c \<noteq> NL) inp")
  case Nil
  with assms show ?thesis by (auto simp: readLine_def split: if_splits)
next
  case (Cons c r)
  with assms have "rest = r" by (auto simp: readLine_def)
  then show ?thesis using length_split_NL [OF Cons] by simp
qed

lemma readLine_next_less:
  assumes "(line', err, rest') = readLine rest" and "line \<noteq> []"
  shows "length line' + length rest' < length line + length rest"
  using readLine_length [OF assms(1)] assms(2) by (cases line) auto

text \<open>The start of \<open>readRecord\<close>: lines that hold a newline only are skipped.\<close>

function skip_empty_lines :: "string \<Rightarrow> string \<times> csv_error option \<times> string" where
  "skip_empty_lines inp =
     (case readLine inp of
        (line, errRead, rest) \<Rightarrow>
          if errRead = None \<and> length line = lengthNL line then skip_empty_lines rest
          else (line, errRead, rest))"
  by pat_completeness auto
termination
  by (relation "measure length") (auto dest: readLine_rest_less)

text \<open>
  The loop \<open>parseField\<close> of \<open>readRecord\<close>: \<open>parse_fields\<close> is the loop at the start
  of a field, \<open>parse_quoted\<close> its inner loop inside a quoted field (\<open>buf\<close> holds the
  field read so far, \<open>dst\<close> the fields that are complete). A quoted field may run over
  several lines, which are read as they are needed. The result is the fields, the parse
  error if there is one, and the bytes still unread.
\<close>

function
  parse_fields ::
    "string \<Rightarrow> string \<Rightarrow> string list \<Rightarrow> string list \<times> csv_error option \<times> string"
  and parse_quoted ::
    "string \<Rightarrow> string \<Rightarrow> string \<Rightarrow> string list \<Rightarrow> string list \<times> csv_error option \<times> string"
where
  "parse_fields line rest dst =
     (if line = [] \<or> hd line \<noteq> DQUOTE then
        (let field = (if COMMA \<in> set line then takeWhile (\<lambda>c. c \<noteq> COMMA) line
                      else take (length line - lengthNL line) line) in
         if DQUOTE \<in> set field then (dst, Some ErrBareQuote, rest)
         else if COMMA \<in> set line
           then parse_fields (tl (dropWhile (\<lambda>c. c \<noteq> COMMA) line)) rest (dst @ [field])
           else (dst @ [field], None, rest))
      else parse_quoted (tl line) rest [] dst)"
| "parse_quoted line rest buf dst =
     (if DQUOTE \<in> set line then
        (let buf' = buf @ takeWhile (\<lambda>c. c \<noteq> DQUOTE) line;
             line' = tl (dropWhile (\<lambda>c. c \<noteq> DQUOTE) line) in
         if line' \<noteq> [] \<and> hd line' = DQUOTE then parse_quoted (tl line') rest (buf' @ [DQUOTE]) dst
         else if line' \<noteq> [] \<and> hd line' = COMMA then parse_fields (tl line') rest (dst @ [buf'])
         else if lengthNL line' = length line' then (dst @ [buf'], None, rest)
         else (dst, Some ErrQuote, rest))
      else if line \<noteq> [] then
        (case readLine rest of
           (line', errRead, rest') \<Rightarrow> parse_quoted line' rest' (buf @ line) dst)
      else (dst, Some ErrQuote, rest))"
  by pat_completeness auto
termination
  by (relation "measure (\<lambda>x. case x of Inl (line, rest, dst) \<Rightarrow> length line + length rest
                                      | Inr (line, rest, buf, dst) \<Rightarrow> length line + length rest)")
    (auto simp: length_dropWhile_minus readLine_next_less)

declare skip_empty_lines.simps [simp del] parse_fields.simps [simp del]
  parse_quoted.simps [simp del]

text \<open>
  \<open>Read\<close>: one record, or the error. A record whose number of fields differs from the
  first record's comes with \<open>ErrFieldCount\<close>.
\<close>

record csv_reader =
  rinput :: string
  FieldsPerRecord :: nat

definition csv_NewReader :: "world \<Rightarrow> string \<Rightarrow> csv_reader" where
  "csv_NewReader w file = \<lparr>rinput = file_content w file, FieldsPerRecord = 0\<rparr>"

definition csv_Read :: "csv_reader \<Rightarrow> (string list \<times> csv_error option) \<times> csv_reader" where
  "csv_Read r =
     (case skip_empty_lines (rinput r) of
        (line, errRead, rest) \<Rightarrow>
          if errRead = Some EOF then (([], Some EOF), r\<lparr>rinput := rest\<rparr>)
          else
            (case parse_fields line rest [] of
               (dst, err, rest') \<Rightarrow>
                 if 0 < FieldsPerRecord r then
                   (if length dst \<noteq> FieldsPerRecord r \<and> err = None
                    then ((dst, Some ErrFieldCount), r\<lparr>rinput := rest'\<rparr>)
                    else ((dst, err), r\<lparr>rinput := rest'\<rparr>))
                 else ((dst, err), r\<lparr>rinput := rest', FieldsPerRecord := length dst\<rparr>)))"

text \<open>
  \<^verbatim>\<open>func ReadCsvFile(fn string) (raw [][]string) {
      file, err := os.Open(ValidateFilepath(fn))
      if err != nil { log.Printf(...); return }
      r := csv.NewReader(file)
      for {
          row, err := r.Read()
          if err == io.EOF { break }
          if err != nil { log.Printf(...); return }
          raw = append(raw, row)
      }
      return
  }\<close>
  The loop has no bound of its own: it is a partial function, \<open>None\<close> when it does not
  return. The result of \<open>ReadCsvFile\<close> is the table and the state it leaves.
\<close>

partial_function (option) ReadCsvFile_loop ::
  "csv_reader \<Rightarrow> string list list \<Rightarrow> string list list option" where
  "ReadCsvFile_loop r raw =
     (case csv_Read r of
        ((row, err), r') \<Rightarrow>
          if err = Some EOF then Some raw
          else if err \<noteq> None then Some raw
          else ReadCsvFile_loop r' (raw @ [row]))"

declare ReadCsvFile_loop.simps [code]

definition ReadCsvFile :: "world \<Rightarrow> string \<Rightarrow> (string list list \<times> world) option" where
  "ReadCsvFile w fn =
     (case os_Open w (ValidateFilepath w fn) of
        (Inl err, w') \<Rightarrow> Some ([], w')
      | (Inr file, w') \<Rightarrow>
          (case ReadCsvFile_loop (csv_NewReader w' file) [] of
             None \<Rightarrow> None
           | Some raw \<Rightarrow> Some (raw, w')))"

text \<open>
  \<open>read_at r k\<close> is what the call number \<open>k\<close> (from 0) of \<open>Read\<close> returns when the
  reader starts as \<open>r\<close>.
\<close>

fun read_at :: "csv_reader \<Rightarrow> nat \<Rightarrow> string list \<times> csv_error option" where
  "read_at r 0 = fst (csv_Read r)"
| "read_at r (Suc k) = read_at (snd (csv_Read r)) k"

text \<open>
  \<open>Writer.Write\<close>: the fields with commas between them and a newline at the end. A
  field is quoted when it is a backslash followed by a dot, holds a comma, a quote, CR
  or LF, or starts with white space; inside the quotes a quote is doubled and every
  other byte is copied.
\<close>

definition fieldNeedsQuotes :: "string \<Rightarrow> bool" where
  "fieldNeedsQuotes field =
     (if field = [] then False
      else if field = [CHR 0x5C, CHR 0x2E] then True
      else if (\<exists>c \<in> set field. c = NL \<or> c = CR \<or> c = DQUOTE \<or> c = COMMA) then True
      else leading_space field \<noteq> None)"

fun quote_body :: "string \<Rightarrow> string" where
  "quote_body [] = []"
| "quote_body (c # cs) = (if c = DQUOTE then [DQUOTE, DQUOTE] else [c]) @ quote_body cs"

definition write_field :: "string \<Rightarrow> string" where
  "write_field field =
     (if \<not> fieldNeedsQuotes field then field
      else [DQUOTE] @ quote_body field @ [DQUOTE])"

fun write_fields :: "nat \<Rightarrow> string list \<Rightarrow> string" where
  "write_fields n [] = []"
| "write_fields n (field # fds) =
     (if 0 < n then [COMMA] else []) @ write_field field @ write_fields (Suc n) fds"

text \<open>
  A \<open>csv.Writer\<close> holds the file it writes to and the bytes not yet written to it
  (it buffers through \<open>bufio.Writer\<close>); \<open>Flush\<close> appends them to the file. The
  library also writes the buffer out whenever it is full; once \<open>Flush\<close> has run the
  file holds the same bytes either way. The delimiter is valid and writes to the file
  succeed, so \<open>Write\<close> returns no error.
\<close>

record csv_writer =
  wfile :: string
  wbuf :: string

definition csv_NewWriter :: "string \<Rightarrow> csv_writer" where
  "csv_NewWriter f = \<lparr>wfile = f, wbuf = []\<rparr>"

definition csv_Write :: "csv_writer \<Rightarrow> string list \<Rightarrow> os_error option \<times> csv_writer" where
  "csv_Write cw rec = (None, cw\<lparr>wbuf := wbuf cw @ write_fields 0 rec @ [NL]\<rparr>)"

definition csv_Flush :: "world \<Rightarrow> csv_writer \<Rightarrow> world \<times> csv_writer" where
  "csv_Flush w cw = (file_append w (wfile cw) (wbuf cw), cw\<lparr>wbuf := []\<rparr>)"

text \<open>
  \<^verbatim>\<open>func NewCsvFile(fn string) *csv.Writer {
      fp, err := filepath.Abs(fn)
      if err != nil { log.Printf(...); return nil }
      if FileExists(fp) { log.Printf(...); return nil }
      newFile, err := os.Create(fp)
      if err != nil { log.Printf(...); return nil }
      return csv.NewWriter(newFile)
  }\<close>
\<close>

definition NewCsvFile :: "world \<Rightarrow> string \<Rightarrow> csv_writer option \<times> world" where
  "NewCsvFile w fn =
     (case abs_path w fn of
        Inl err \<Rightarrow> (None, w)
      | Inr fp \<Rightarrow>
          if FileExists w fp then (None, w)
          else
            (case os_Create w fp of
               (Inl err, w') \<Rightarrow> (None, w')
             | (Inr newFile, w') \<Rightarrow> (Some (csv_NewWriter newFile), w')))"

text \<open>
  \<^verbatim>\<open>func CommaSep(fn string, headers []string, values [][]string) {
      cw := NewCsvFile(fn)
      if cw == nil { log.Printf(...); return }
      err := cw.Write(headers)
      if err != nil { log.Printf(...); return }
      for i, v := range values {
          err = cw.Write(v)
          if err != nil { log.Printf(...) }
      }
      cw.Flush()
      log.Printf(...)
  }\<close>
\<close>

fun CommaSep_loop :: "csv_writer \<Rightarrow> string list list \<Rightarrow> csv_writer" where
  "CommaSep_loop cw [] = cw"
| "CommaSep_loop cw (v # vs) =
     (case csv_Write cw v of
        (Some err, cw') \<Rightarrow> CommaSep_loop cw' vs
      | (None, cw') \<Rightarrow> CommaSep_loop cw' vs)"

definition CommaSep :: "world \<Rightarrow> string \<Rightarrow> string list \<Rightarrow> string list list \<Rightarrow> world" where
  "CommaSep w fn headers vals =
     (case NewCsvFile w fn of
        (None, w') \<Rightarrow> w'
      | (Some cw, w') \<Rightarrow>
          (case csv_Write cw headers of
             (Some err, cw') \<Rightarrow> w'
           | (None, cw') \<Rightarrow> fst (csv_Flush w' (CommaSep_loop cw' vals))))"

subsection \<open>Line-oriented file input\<close>

text \<open>
  \<^verbatim>\<open>func LoadLines(fn string) (res []string) {
      f, err := os.Open(ValidateFilepath(fn))
      if err != nil { log.Printf(...); return res }
      defer f.Close()
      s := bufio.NewScanner(f)
      for s.Scan() {
          res = append(res, strings.TrimSpace(s.Text()))
      }
      return
  }\<close>
  The tokens of \<open>bufio.Scanner\<close> are library code: the parameter \<open>ScanLines\<close> gives,
  for the bytes of a file, the texts of the successful calls of \<open>Scan\<close> in order.
\<close>

fun LoadLines_loop :: "string list \<Rightarrow> string list \<Rightarrow> string list" where
  "LoadLines_loop res [] = res"
| "LoadLines_loop res (t # ts) = LoadLines_loop (res @ [TrimSpace t]) ts"

definition LoadLines ::
  "(string \<Rightarrow> string list) \<Rightarrow> world \<Rightarrow> string \<Rightarrow> string list \<times> world" where
  "LoadLines ScanLines w fn =
     (case os_Open w (ValidateFilepath w fn) of
        (Inl err, w') \<Rightarrow> ([], w')
      | (Inr f, w') \<Rightarrow>
          (let res = LoadLines_loop [] (ScanLines (file_content w' f))
           in (res, os_Close w' f)))"

text \<open>
  \<^verbatim>\<open>func ReadFileBytes(fn string) []byte {
      f, err := os.ReadFile(ValidateFilepath(fn))
      if err != nil { log.Println(err); return nil }
      return f
  }\<close>
\<close>

definition ReadFileBytes :: "world \<Rightarrow> string \<Rightarrow> string option \<times> world" where
  "ReadFileBytes w fn =
     (case os_ReadFile w (ValidateFilepath w fn) of
        Inl err \<Rightarrow> (None, w)
      | Inr f \<Rightarrow> (Some f, w))"

subsection \<open>Values of type \<open>interface{}\<close>\<close>

text \<open>
  \<open>XmlPretty\<close> and \<open>TabFlex\<close> take values of the empty interface type. The model
  has strings, integers, booleans and the nil interface; \<open>go_type\<close> is the name of the
  dynamic type and \<open>fmt_v\<close> what the verb \<open>%v\<close> prints.
\<close>

datatype go_value = GoString string | GoInt int | GoBool bool | GoNil

fun go_type :: "go_value \<Rightarrow> string" where
  "go_type (GoString s) = ''string''"
| "go_type (GoInt i) = ''int''"
| "go_type (GoBool b) = ''bool''"
| "go_type GoNil = ''nil''"

fun nat_dec :: "nat \<Rightarrow> string" where
  "nat_dec n =
     (if n < 10 then [''0123456789'' ! n]
      else nat_dec (n div 10) @ [''0123456789'' ! (n mod 10)])"

fun fmt_v :: "go_value \<Rightarrow> string" where
  "fmt_v (GoString s) = s"
| "fmt_v (GoInt i) = (if i < 0 then CHR ''-'' # nat_dec (nat (- i)) else nat_dec (nat i))"
| "fmt_v (GoBool b) = (if b then ''true'' else ''false'')"
| "fmt_v GoNil = ''<nil>''"

subsection \<open>XML formatting\<close>

text \<open>
  \<^verbatim>\<open>func XmlPretty(v interface{}) string {
      raw, err := formatXML([]byte(v.(string)))
      if err != nil {
          return err.Error()
      } else {
          return string(raw)
      }
  }\<close>
  The type assertion \<open>v.(string)\<close> has one result, so it panics when the dynamic type
  of \<open>v\<close> is not \<open>string\<close>; nothing in the package recovers. A panic is the left
  summand of the result. \<open>formatXML\<close> runs the decoder and the encoder of
  \<open>encoding/xml\<close>; it is the parameter of the model, with the text of the error on the
  left and the bytes on the right.
\<close>

datatype panic = TypeAssertionPanic string

definition XmlPretty :: "(string \<Rightarrow> string + string) \<Rightarrow> go_value \<Rightarrow> panic + string" where
  "XmlPretty formatXML v =
     (case v of
        GoString s \<Rightarrow>
          (case formatXML s of
             Inl err \<Rightarrow> Inr err
           | Inr raw \<Rightarrow> Inr raw)
      | _ \<Rightarrow> Inl (TypeAssertionPanic (go_type v)))"

subsection \<open>Standard input\<close>

text \<open>
  \<^verbatim>\<open>func ReadLinesFromStdin() (lines []string) {
      var skip bool
      reader := bufio.NewReaderSize(os.Stdin, 1024*1024)
      for {
          a, _, err := reader.ReadLine()
          if err == io.EOF {
              if skip { break } else { skip = true; continue }
          } else if err != nil {
              log.Printf("reading - %s\n", err)
              return
          }
          line := strings.TrimRight(string(a), "\r\n")
          if line == "" {
              if skip { break } else { skip = true; continue }
          }
          skip = false
          lines = append(lines, line)
      }
      return
  }\<close>
  Standard input is what the calls of \<open>ReadLine\<close> return, one after the other: the
  call number \<open>n\<close> (from 0) returns \<open>rd n\<close>, a line without its end-of-line bytes, the
  end of the stream, or another error. A terminal can deliver more lines after an end
  of stream, and a stream need not end, so the input is a function on all of \<open>nat\<close> and
  the loop is a partial function: \<open>None\<close> when it reads forever. The result is the
  lines and the number of calls of \<open>ReadLine\<close> made.
\<close>

datatype read_result = Line string | EndOfStream | ReadError string

partial_function (option) ReadLinesFromStdin_loop ::
  "(nat \<Rightarrow> read_result) \<Rightarrow> nat \<Rightarrow> bool \<Rightarrow> string list \<Rightarrow> (string list \<times> nat) option" where
  "ReadLinesFromStdin_loop rd n skip lines =
     (case rd n of
        EndOfStream \<Rightarrow>
          if skip then Some (lines, Suc n)
          else ReadLinesFromStdin_loop rd (Suc n) True lines
      | ReadError e \<Rightarrow> Some (lines, Suc n)
      | Line a \<Rightarrow>
          (let line = TrimRight a [CR, NL] in
           if line = [] then
             (if skip then Some (lines, Suc n)
              else ReadLinesFromStdin_loop rd (Suc n) True lines)
           else ReadLinesFromStdin_loop rd (Suc n) False (lines @ [line])))"

declare ReadLinesFromStdin_loop.simps [code]

definition ReadLinesFromStdin :: "(nat \<Rightarrow> read_result) \<Rightarrow> (string list \<times> nat) option" where
  "ReadLinesFromStdin rd = ReadLinesFromStdin_loop rd 0 False []"

text \<open>The input that delivers the results \<open>rs\<close> and then the end of the stream for ever.\<close>

definition stream_of :: "read_result list \<Rightarrow> nat \<Rightarrow> read_result" where
  "stream_of rs n = (if n < length rs then rs ! n else EndOfStream)"

text \<open>
  Words for the results of \<open>ReadLine\<close>. A \<^emph>\<open>blank\<close> line is one that is empty once
  its trailing CR and LF bytes are removed; a \<^emph>\<open>skip\<close> is a blank line or an end of
  stream (the two events that set or test the flag \<open>skip\<close>). \<open>stops_at rd k\<close>: the
  call number \<open>k\<close> returns an error other than the end of the stream, or it is a skip
  directly after a skip. \<open>kept r\<close> is what the result \<open>r\<close> adds to \<open>lines\<close>, and
  \<open>kept_lines rd k\<close> what the first \<open>k\<close> results add.
\<close>

definition is_blank :: "read_result \<Rightarrow> bool" where
  "is_blank r = (case r of Line a \<Rightarrow> TrimRight a [CR, NL] = [] | _ \<Rightarrow> False)"

definition is_skip :: "read_result \<Rightarrow> bool" where
  "is_skip r = (r = EndOfStream \<or> is_blank r)"

definition is_error :: "read_result \<Rightarrow> bool" where
  "is_error r = (case r of ReadError e \<Rightarrow> True | _ \<Rightarrow> False)"

definition stops_at :: "(nat \<Rightarrow> read_result) \<Rightarrow> nat \<Rightarrow> bool" where
  "stops_at rd k = (is_error (rd k) \<or> (0 < k \<and> is_skip (rd (k - 1)) \<and> is_skip (rd k)))"

definition kept :: "read_result \<Rightarrow> string list" where
  "kept r =
     (case r of
        Line a \<Rightarrow> (if TrimRight a [CR, NL] = [] then [] else [TrimRight a [CR, NL]])
      | _ \<Rightarrow> [])"

definition kept_lines :: "(nat \<Rightarrow> read_result) \<Rightarrow> nat \<Rightarrow> string list" where
  "kept_lines rd k = concat (map (\<lambda>j. kept (rd j)) [0..<k])"

text \<open>
  The same for the loop in the middle of its run, about to make the call number \<open>n\<close>
  with the flag \<open>skip\<close>.
\<close>

definition stops_from :: "(nat \<Rightarrow> read_result) \<Rightarrow> nat \<Rightarrow> bool \<Rightarrow> nat \<Rightarrow> bool" where
  "stops_from rd n skip j =
     (is_error (rd j) \<or> (is_skip (rd j) \<and> (if j = n then skip else is_skip (rd (j - 1)))))"

text \<open>
  The stopping rule in the words of the specification: two blank lines in a row, or two
  ends of stream in a row.
\<close>

definition claimed_stop :: "(nat \<Rightarrow> read_result) \<Rightarrow> nat \<Rightarrow> bool" where
  "claimed_stop rd k =
     (0 < k \<and> ((is_blank (rd (k - 1)) \<and> is_blank (rd k)) \<or>
               (rd (k - 1) = EndOfStream \<and> rd k = EndOfStream)))"

text \<open>
  \<open>kept_indices rd k\<close>: the calls among the first \<open>k\<close> whose line is kept.
\<close>

definition line_text :: "read_result \<Rightarrow> string" where
  "line_text r = (case r of Line a \<Rightarrow> a | _ \<Rightarrow> [])"

definition kept_indices :: "(nat \<Rightarrow> read_result) \<Rightarrow> nat \<Rightarrow> nat list" where
  "kept_indices rd k = filter (\<lambda>j. kept (rd j) \<noteq> []) [0..<k]"

subsection \<open>The table printer\<close>

text \<open>
  \<^verbatim>\<open>func fs(p string) (f string) {
      f = strings.Repeat("-", len(p))
      return f
  }

  func TabFlex(headers []string, values [][]interface{}) {
      tw := new(tabwriter.Writer).Init(os.Stdout, 0, 8, 2, ' ', 0)
      var count int
      for _, h := range headers { fmt.Fprintf(tw, "%v\t", h); count++ }
      fmt.Fprintf(tw, "\n")
      for _, h := range headers { fmt.Fprintf(tw, "%v\t", fs(h)) }
      fmt.Fprintf(tw, "\n")
      for _, v := range values {
          for i := 0; i < len(headers); i++ {
              if len(v) <= i { fmt.Fprintf(tw, "%v\t", ""); continue }
              fmt.Fprintf(tw, "%v\t", v[i])
          }
          fmt.Fprintf(tw, "\n")
      }
      for _, h := range headers { fmt.Fprintf(tw, "%v\t", fs(h)) }
      fmt.Fprintf(tw, "\n")
      tw.Flush()
  }\<close>
  The model is the text \<open>TabFlex\<close> writes to the \<open>tabwriter\<close>, threaded through the
  loops as \<open>tw\<close>: every cell ends with a tab and every row with a newline. The
  \<open>tabwriter\<close> then pads the cells of a column to one width; its layout is library
  code and not part of the model. The counter \<open>count\<close> is never read.
\<close>

definition fs :: "string \<Rightarrow> string" where
  "fs p = replicate (length p) (CHR ''-'')"

fun TabFlex_headers :: "string \<Rightarrow> string list \<Rightarrow> string" where
  "TabFlex_headers tw [] = tw"
| "TabFlex_headers tw (h # hs) = TabFlex_headers (tw @ h @ [TAB]) hs"

fun TabFlex_dashes :: "string \<Rightarrow> string list \<Rightarrow> string" where
  "TabFlex_dashes tw [] = tw"
| "TabFlex_dashes tw (h # hs) = TabFlex_dashes (tw @ fs h @ [TAB]) hs"

text \<open>The inner loop: \<open>k\<close> iterations are left, so \<open>i = len(headers) - k\<close>.\<close>

fun TabFlex_cells :: "nat \<Rightarrow> go_value list \<Rightarrow> string \<Rightarrow> nat \<Rightarrow> string" where
  "TabFlex_cells nh v tw 0 = tw"
| "TabFlex_cells nh v tw (Suc k) =
     (let i = nh - Suc k in
      if length v \<le> i then TabFlex_cells nh v (tw @ [] @ [TAB]) k
      else TabFlex_cells nh v (tw @ fmt_v (v ! i) @ [TAB]) k)"

fun TabFlex_rows :: "nat \<Rightarrow> string \<Rightarrow> go_value list list \<Rightarrow> string" where
  "TabFlex_rows nh tw [] = tw"
| "TabFlex_rows nh tw (v # vs) = TabFlex_rows nh (TabFlex_cells nh v tw nh @ [NL]) vs"

definition TabFlex :: "string list \<Rightarrow> go_value list list \<Rightarrow> string" where
  "TabFlex headers vals =
     (let tw1 = TabFlex_headers [] headers @ [NL];
          tw2 = TabFlex_dashes tw1 headers @ [NL];
          tw3 = TabFlex_rows (length headers) tw2 vals;
          tw4 = TabFlex_dashes tw3 headers @ [NL]
      in tw4)"

text \<open>
  The table as the specification describes it, for comparison with \<open>TabFlex\<close>: the
  header row, the row of dashes, one row per data row cut or filled with empty cells
  to the number of headers, and the row of dashes again.
\<close>

definition fit_row :: "nat \<Rightarrow> go_value list \<Rightarrow> string list" where
  "fit_row n v = map fmt_v (take n v) @ replicate (n - length v) []"

definition table_rows :: "string list \<Rightarrow> go_value list list \<Rightarrow> string list list" where
  "table_rows headers vals =
     [headers, map fs headers] @ map (fit_row (length headers)) vals @ [map fs headers]"

definition render_row :: "string list \<Rightarrow> string" where
  "render_row cells = concat (map (\<lambda>c. c @ [TAB]) cells) @ [NL]"

subsection \<open>Notions for the CSV round trip\<close>

text \<open>
  \<open>crlf_free s\<close>: no CR in \<open>s\<close> is directly followed by LF. The reader turns CR LF at
  the end of a line into LF, also inside a quoted field, so only such text is read back
  as it was written.
\<close>

fun crlf_free :: "string \<Rightarrow> bool" where
  "crlf_free [] = True"
| "crlf_free [c] = True"
| "crlf_free (a # b # s) = ((a \<noteq> CR \<or> b \<noteq> NL) \<and> crlf_free (b # s))"

text \<open>
  The reader holds the rest of the current line and the bytes after it. For input
  \<open>s\<close> these are \<open>cur_line s\<close> (up to and with the first newline) and
  \<open>next_lines s\<close>.
\<close>

definition cur_line :: "string \<Rightarrow> string" where
  "cur_line s = (if NL \<in> set s then takeWhile (\<lambda>c. c \<noteq> NL) s @ [NL] else s)"

definition next_lines :: "string \<Rightarrow> string" where
  "next_lines s = (if NL \<in> set s then tl (dropWhile (\<lambda>c. c \<noteq> NL) s) else [])"

text \<open>
  What \<open>Write\<close> emits after the first field of a record, and the bytes of a whole
  list of records.
\<close>

definition fields_tail :: "string list \<Rightarrow> string" where
  "fields_tail fds = concat (map (\<lambda>f. COMMA # write_field f) fds)"

definition encode_records :: "string list list \<Rightarrow> string" where
  "encode_records recs = concat (map (\<lambda>rec. write_fields 0 rec @ [NL]) recs)"

text \<open>
  Text that can be put next to other such text without a CR meeting an LF:
  \<open>segment\<close> neither starts with LF nor ends with CR, \<open>ends_clean\<close> does not end
  with CR.
\<close>

definition segment :: "string \<Rightarrow> bool" where
  "segment s = (crlf_free s \<and> (s = [] \<or> (hd s \<noteq> NL \<and> last s \<noteq> CR)))"

definition ends_clean :: "string \<Rightarrow> bool" where
  "ends_clean s = (crlf_free s \<and> (s = [] \<or> last s \<noteq> CR))"

text \<open>
  A table for the round trip: fields with a comma, quotes, a newline, a leading space,
  a CR at the end, and empty fields.
\<close>

definition demo_headers :: "string list" where
  "demo_headers = [''id'', ''note'']"

definition demo_rows :: "string list list" where
  "demo_rows =
     [[''1'', ''a,b''],
      [''2'', '' say '' @ [DQUOTE] @ ''hi'' @ [DQUOTE, NL] @ ''bye'' @ [CR]],
      ['''', '''']]"

subsection \<open>A concrete state\<close>

text \<open>
  A small file system for evaluating the functions: relative paths resolve under
  \<open>/work/\<close>, there are two CSV files, one path that cannot be reached for lack of
  permission, and a directory \<open>/gone\<close> that does not exist. The third record of
  \<open>bad.csv\<close> has a quote inside a field that is not quoted.
\<close>

definition demo_abs :: "string \<Rightarrow> os_error + string" where
  "demo_abs p = Inr (if take 1 p = ''/'' then p else ''/work/'' @ p)"

definition demo_nodes :: "string \<Rightarrow> node" where
  "demo_nodes p =
     (if p = ''/work/in.csv'' then Regular (''a,b'' @ [NL] @ ''1,2'' @ [NL])
      else if p = ''/work/bad.csv''
        then Regular (''a,b'' @ [NL] @ ''1,2'' @ [NL] @ ''x'' @ [DQUOTE] @ ''y,z'' @ [NL] @
                      ''3,4'' @ [NL])
      else if p = ''/locked/x.csv'' then Blocked ErrPermission
      else if take 6 p = ''/gone/'' then Blocked ErrNotExist
      else Absent)"

definition demo_world :: world where
  "demo_world = \<lparr>abs_path = demo_abs, nodes = demo_nodes, open_handles = []\<rparr>"

section \<open>Properties\<close>

subsection \<open>Path validation\<close>

text \<open>
  Claim C3. For every path, \<open>FileExists\<close> returns true when the stat call succeeds;
  when the stat call fails with the error \<open>e\<close>, it returns true if and only if \<open>e\<close>
  is not a "does not exist" error. So a permission error, or any other error of stat
  that is not "does not exist", is reported as the file existing.
\<close>

theorem FileExists_follows_stat:
  "(os_Stat w fp = None \<longrightarrow> FileExists w fp) \<and>
   (\<forall>e. os_Stat w fp = Some e \<longrightarrow> (FileExists w fp \<longleftrightarrow> \<not> os_IsNotExist e))"
  by (simp add: FileExists_def)

theorem FileExists_follows_stat_witness:
  "os_Stat demo_world ''/work/in.csv'' = None \<and> FileExists demo_world ''/work/in.csv'' \<and>
   os_Stat demo_world ''/locked/x.csv'' = Some ErrPermission \<and>
   FileExists demo_world ''/locked/x.csv'' \<and>
   os_Stat demo_world ''/work/none.csv'' = Some ErrNotExist \<and>
   \<not> FileExists demo_world ''/work/none.csv''"
proof -
  have s1: "os_Stat demo_world ''/work/in.csv'' = None"
    by (simp add: os_Stat_def node_at_def demo_world_def demo_nodes_def)
  have s2: "os_Stat demo_world ''/locked/x.csv'' = Some ErrPermission"
    by (simp add: os_Stat_def node_at_def demo_world_def demo_nodes_def)
  have s3: "os_Stat demo_world ''/work/none.csv'' = Some ErrNotExist"
    by (simp add: os_Stat_def node_at_def demo_world_def demo_nodes_def)
  show ?thesis
    using s1 s2 s3
      FileExists_follows_stat [of demo_world "''/work/in.csv''"]
      FileExists_follows_stat [of demo_world "''/locked/x.csv''"]
      FileExists_follows_stat [of demo_world "''/work/none.csv''"]
    by (simp add: os_IsNotExist_def)
qed

subsection \<open>XML formatting\<close>

lemma XmlPretty_string:
  "XmlPretty formatXML (GoString s) = Inr (case formatXML s of Inl err \<Rightarrow> err | Inr raw \<Rightarrow> raw)"
  by (simp add: XmlPretty_def split: sum.splits)

lemma XmlPretty_panics_iff:
  "(\<exists>p. XmlPretty formatXML v = Inl p) \<longleftrightarrow> (\<forall>s. v \<noteq> GoString s)"
  by (cases v) (simp_all add: XmlPretty_def split: sum.splits)

text \<open>
  Claim C4 says that \<open>XmlPretty\<close> returns a string describing the type mismatch for
  every input that is not a string. The code does not: on the integer 42 the type
  assertion panics and no string is returned, whatever \<open>formatXML\<close> does. Only a
  string input reaches \<open>formatXML\<close> and yields a string.
\<close>

theorem XmlPretty_int_panics:
  "XmlPretty formatXML (GoInt 42) = Inl (TypeAssertionPanic ''int'')"
  by (simp add: XmlPretty_def)

subsection \<open>List helpers\<close>

text \<open>
  The loop of \<open>ConcatListNicely\<close> joins the entries that are not empty, each followed
  by \<open>", "\<close>. When the last of them does not end with a comma or a space, trimming
  removes that one separator and nothing else.
\<close>

lemma ConcatListNicely_loop_eq:
  "ConcatListNicely_loop res list =
   res @ concat (map (\<lambda>r. r @ '', '') (filter (\<lambda>r. r \<noteq> []) list))"
  by (induction list arbitrary: res) simp_all

lemma TrimRight_separator:
  assumes "r \<noteq> []" and "last r \<notin> set cutset" and "set sep \<subseteq> set cutset"
  shows "TrimRight (xs @ r @ sep) cutset = xs @ r"
proof -
  have "dropWhile (\<lambda>c. c \<in> set cutset) (rev sep @ rev r @ rev xs) =
        dropWhile (\<lambda>c. c \<in> set cutset) (rev r @ rev xs)"
    using assms(3) by (intro dropWhile_append2) auto
  moreover have "dropWhile (\<lambda>c. c \<in> set cutset) (rev r @ rev xs) = rev r @ rev xs"
    using assms(1,2) by (cases r rule: rev_cases) simp_all
  ultimately show ?thesis by (simp add: TrimRight_def)
qed

lemma ConcatListNicely_join:
  assumes "filter (\<lambda>r. r \<noteq> []) list = ys @ [r]"
    and "last r \<noteq> CHR '','' " and "last r \<noteq> CHR '' ''"
  shows "ConcatListNicely list = concat (map (\<lambda>r. r @ '', '') ys) @ r"
proof -
  have "r \<in> set (filter (\<lambda>r. r \<noteq> []) list)" using assms(1) by simp
  then have ne: "r \<noteq> []" by simp
  have "ConcatListNicely list = TrimRight (concat (map (\<lambda>r. r @ '', '') ys) @ r @ '', '') '', ''"
    by (simp add: ConcatListNicely_def ConcatListNicely_loop_eq assms(1))
  also have "\<dots> = concat (map (\<lambda>r. r @ '', '') ys) @ r"
    using assms(2,3) by (intro TrimRight_separator [OF ne]) auto
  finally show ?thesis .
qed

lemma ConcatListNicely_all_empty:
  "filter (\<lambda>r. r \<noteq> []) list = [] \<Longrightarrow> ConcatListNicely list = []"
  by (simp add: ConcatListNicely_def ConcatListNicely_loop_eq TrimRight_def)

lemma ConcatListNicely_examples:
  "ConcatListNicely [] = [] \<and> ConcatListNicely [''a'', '''', ''b''] = ''a, b''"
  by (simp add: ConcatListNicely_def TrimRight_def)

text \<open>
  Claim C6 says that \<open>ConcatListNicely\<close> removes only the one separator \<open>", "\<close> after
  the last entry. The code calls \<open>strings.TrimRight\<close> with the cutset \<open>", "\<close>, which
  removes every trailing comma and space: an entry that itself ends with a comma or a
  space loses them. On \<open>["a,"]\<close> the result is \<open>"a"\<close> (the claim: \<open>"a,"\<close>), and on
  \<open>["x", "b "]\<close> it is \<open>"x, b"\<close> (the claim: \<open>"x, b "\<close>).
\<close>

theorem ConcatListNicely_strips_entry:
  "ConcatListNicely [''a,''] = ''a'' \<and> ConcatListNicely [''x'', ''b ''] = ''x, b''"
  by (simp add: ConcatListNicely_def TrimRight_def)

lemma SplitLines_loop_map:
  "SplitLines_loop Split sep splines ls = splines @ map (\<lambda>l. Split l sep) ls"
  by (induction ls arbitrary: splines) simp_all

text \<open>
  Claim C10. For every list of strings and every separator, \<open>SplitLines\<close> returns a
  list as long as its input whose entry number \<open>i\<close> is the line number \<open>i\<close> split on
  the separator, in the order of the input. This holds for every function in the place
  of \<open>strings.Split\<close>.
\<close>

theorem SplitLines_pointwise:
  "SplitLines Split lines sep = map (\<lambda>l. Split l sep) lines \<and>
   length (SplitLines Split lines sep) = length lines \<and>
   (\<forall>i < length lines. SplitLines Split lines sep ! i = Split (lines ! i) sep)"
  by (simp add: SplitLines_def SplitLines_loop_map)

theorem SplitLines_pointwise_witness:
  "SplitLines (\<lambda>s sep. split_sep sep [] s) [''a,b'', '''', ''c''] '','' =
     [[''a'', ''b''], [''''], [''c'']]"
  using SplitLines_pointwise [of "\<lambda>s sep. split_sep sep [] s" "[''a,b'', '''', ''c'']" "'',''"]
  by simp

subsection \<open>The table printer\<close>

lemma TabFlex_headers_eq:
  "TabFlex_headers tw hs = tw @ concat (map (\<lambda>c. c @ [TAB]) hs)"
  by (induction hs arbitrary: tw) simp_all

lemma TabFlex_dashes_eq:
  "TabFlex_dashes tw hs = tw @ concat (map (\<lambda>c. c @ [TAB]) (map fs hs))"
  by (induction hs arbitrary: tw) simp_all

lemma length_fit_row: "length (fit_row n v) = n"
  by (simp add: fit_row_def)

lemma fit_row_nth:
  "i < n \<Longrightarrow> fit_row n v ! i = (if length v \<le> i then [] else fmt_v (v ! i))"
  by (simp add: fit_row_def nth_append)

lemma TabFlex_cells_eq:
  "k \<le> nh \<Longrightarrow>
   TabFlex_cells nh v tw k = tw @ concat (map (\<lambda>c. c @ [TAB]) (drop (nh - k) (fit_row nh v)))"
proof (induction k arbitrary: tw)
  case 0
  then show ?case by (simp add: length_fit_row)
next
  case (Suc k)
  let ?i = "nh - Suc k"
  from Suc.prems have i: "?i < nh" and k: "k \<le> nh" and s: "Suc ?i = nh - k" by simp_all
  have "drop ?i (fit_row nh v) = fit_row nh v ! ?i # drop (nh - k) (fit_row nh v)"
    using Cons_nth_drop_Suc [of ?i "fit_row nh v"] i s by (simp add: length_fit_row)
  then show ?case
    using Suc.IH [OF k] i by (simp add: fit_row_nth Let_def)
qed

lemma TabFlex_rows_eq:
  "TabFlex_rows nh tw vs = tw @ concat (map (\<lambda>v. render_row (fit_row nh v)) vs)"
  by (induction vs arbitrary: tw) (simp_all add: TabFlex_cells_eq render_row_def)

lemma TabFlex_eq_render:
  "TabFlex headers vals = concat (map render_row (table_rows headers vals))"
  by (simp add: TabFlex_def table_rows_def TabFlex_headers_eq TabFlex_dashes_eq
      TabFlex_rows_eq render_row_def Let_def comp_def)

lemma map_length_table_rows:
  "map length (table_rows headers vals) = replicate (length vals + 3) (length headers)"
proof -
  have "map length (map (fit_row n) vs) = replicate (length vs) n" for n vs
    by (induction vs) (simp_all add: length_fit_row)
  then show ?thesis
    by (simp add: table_rows_def replicate_append_same numeral_3_eq_3)
qed

lemma TabFlex_example:
  "TabFlex [''A'', ''BB''] [[GoString ''1'', GoString ''2''], [GoString ''3'']] =
     [CHR ''A'', TAB, CHR ''B'', CHR ''B'', TAB, NL,
      CHR ''-'', TAB, CHR ''-'', CHR ''-'', TAB, NL,
      CHR ''1'', TAB, CHR ''2'', TAB, NL,
      CHR ''3'', TAB, TAB, NL,
      CHR ''-'', TAB, CHR ''-'', CHR ''-'', TAB, NL]"
  by (simp add: TabFlex_def fs_def Let_def)

text \<open>
  Claim C9. For headers of length \<open>n\<close> and any data rows, \<open>TabFlex\<close> emits, in this
  order: the header row; a row of dashes with as many dashes in each column as the
  header of the column has bytes; one row per data row, cut to \<open>n\<close> cells when it is
  longer and filled with empty cells when it is shorter; and the row of dashes again.
  Every row has \<open>n\<close> cells, there are \<open>length vals + 3\<close> rows, and for the headers
  \<open>["A", "BB"]\<close> with the rows \<open>["1", "2"]\<close> and \<open>["3"]\<close> the text has 5 lines.
\<close>

theorem TabFlex_emits_table:
  "TabFlex headers vals = concat (map render_row (table_rows headers vals)) \<and>
   length (table_rows headers vals) = length vals + 3 \<and>
   map length (table_rows headers vals) = replicate (length vals + 3) (length headers) \<and>
   map fs headers = map (\<lambda>h. replicate (length h) (CHR ''-'')) headers \<and>
   TabFlex [''A'', ''BB''] [[GoString ''1'', GoString ''2''], [GoString ''3'']] =
     [CHR ''A'', TAB, CHR ''B'', CHR ''B'', TAB, NL,
      CHR ''-'', TAB, CHR ''-'', CHR ''-'', TAB, NL,
      CHR ''1'', TAB, CHR ''2'', TAB, NL,
      CHR ''3'', TAB, TAB, NL,
      CHR ''-'', TAB, CHR ''-'', CHR ''-'', TAB, NL] \<and>
   length (filter (\<lambda>c. c = NL)
     (TabFlex [''A'', ''BB''] [[GoString ''1'', GoString ''2''], [GoString ''3'']])) = 5"
proof -
  have "length (table_rows headers vals) = length vals + 3"
    by (simp add: table_rows_def)
  moreover have "map fs headers = map (\<lambda>h. replicate (length h) (CHR ''-'')) headers"
    by (simp add: fs_def)
  moreover have "length (filter (\<lambda>c. c = NL)
     (TabFlex [''A'', ''BB''] [[GoString ''1'', GoString ''2''], [GoString ''3'']])) = 5"
    unfolding TabFlex_example by (simp add: TAB_def NL_def)
  ultimately show ?thesis
    using TabFlex_eq_render map_length_table_rows TabFlex_example by blast
qed

subsection \<open>Standard input\<close>

lemma stops_from_start: "stops_from rd 0 False j = stops_at rd j"
  by (cases j) (auto simp: stops_from_def stops_at_def)

lemma stops_from_step:
  "Suc n \<le> j \<Longrightarrow> stops_from rd (Suc n) (is_skip (rd n)) j = stops_from rd n skip j"
  by (auto simp: stops_from_def)

lemma loop_step:
  assumes "\<not> stops_from rd n skip n"
  shows "ReadLinesFromStdin_loop rd n skip lines =
         ReadLinesFromStdin_loop rd (Suc n) (is_skip (rd n)) (lines @ kept (rd n))"
  using assms
  by (subst ReadLinesFromStdin_loop.simps)
     (auto simp: stops_from_def is_skip_def is_blank_def is_error_def kept_def Let_def
           split: read_result.splits)

lemma loop_stop:
  assumes "stops_from rd n skip n"
  shows "ReadLinesFromStdin_loop rd n skip lines = Some (lines, Suc n)"
  using assms
  by (subst ReadLinesFromStdin_loop.simps)
     (auto simp: stops_from_def is_skip_def is_blank_def is_error_def kept_def Let_def
           split: read_result.splits)

lemma loop_returns:
  "n \<le> k \<Longrightarrow> stops_from rd n skip k \<Longrightarrow> (\<forall>j. n \<le> j \<and> j < k \<longrightarrow> \<not> stops_from rd n skip j) \<Longrightarrow>
   ReadLinesFromStdin_loop rd n skip lines =
     Some (lines @ concat (map (\<lambda>j. kept (rd j)) [n..<k]), Suc k)"
proof (induction "k - n" arbitrary: n skip lines)
  case 0
  then have "k = n" by simp
  with 0 show ?case by (simp add: loop_stop)
next
  case (Suc d)
  then have lt: "n < k" by simp
  with Suc.prems have ns: "\<not> stops_from rd n skip n" by simp
  have a: "stops_from rd (Suc n) (is_skip (rd n)) k"
  proof -
    from lt have "Suc n \<le> k" by simp
    from Suc.prems(2) show ?thesis unfolding stops_from_step [OF \<open>Suc n \<le> k\<close>, of rd skip] .
  qed
  have b: "\<forall>j. Suc n \<le> j \<and> j < k \<longrightarrow> \<not> stops_from rd (Suc n) (is_skip (rd n)) j"
  proof (intro allI impI)
    fix j assume j: "Suc n \<le> j \<and> j < k"
    then have sj: "Suc n \<le> j" by simp
    from j Suc.prems(3) have "\<not> stops_from rd n skip j" by simp
    then show "\<not> stops_from rd (Suc n) (is_skip (rd n)) j"
      unfolding stops_from_step [OF sj, of rd skip] .
  qed
  have "ReadLinesFromStdin_loop rd (Suc n) (is_skip (rd n)) (lines @ kept (rd n)) =
        Some ((lines @ kept (rd n)) @ concat (map (\<lambda>j. kept (rd j)) [Suc n..<k]), Suc k)"
    using Suc.hyps(1) [of "Suc n" "is_skip (rd n)" "lines @ kept (rd n)"] Suc.hyps(2) lt a b
    by simp
  then show ?case
    using lt by (simp add: loop_step [OF ns] upt_conv_Cons)
qed

lemma loop_returned:
  assumes "ReadLinesFromStdin_loop rd n skip lines = Some y"
  shows "\<exists>k. n \<le> k \<and> stops_from rd n skip k \<and>
       (\<forall>j. n \<le> j \<and> j < k \<longrightarrow> \<not> stops_from rd n skip j) \<and>
       y = (lines @ concat (map (\<lambda>j. kept (rd j)) [n..<k]), Suc k)"
  using assms
proof (induction rd n skip lines y
    rule: ReadLinesFromStdin_loop.raw_induct [rotated 1, consumes 1, case_names 1])
  case (1 loop rd n skip lines y)
  show ?case
  proof (cases "stops_from rd n skip n")
    case True
    have "y = (lines, Suc n)"
      using 1(2) True
      by (auto simp: stops_from_def is_skip_def is_blank_def is_error_def Let_def
          split: read_result.splits if_splits)
    with True show ?thesis by (intro exI [of _ n]) auto
  next
    case False
    have "loop rd (Suc n) (is_skip (rd n)) (lines @ kept (rd n)) = Some y"
      using 1(2) False
      by (auto simp: stops_from_def is_skip_def is_blank_def is_error_def kept_def Let_def
          split: read_result.splits if_splits)
    from 1(1) [OF this] obtain k where kk: "Suc n \<le> k \<and>
      stops_from rd (Suc n) (is_skip (rd n)) k \<and>
      (\<forall>j. Suc n \<le> j \<and> j < k \<longrightarrow> \<not> stops_from rd (Suc n) (is_skip (rd n)) j) \<and>
      y = ((lines @ kept (rd n)) @ concat (map (\<lambda>j. kept (rd j)) [Suc n..<k]), Suc k)" ..
    then have k: "Suc n \<le> k"
      "stops_from rd (Suc n) (is_skip (rd n)) k"
      "\<forall>j. Suc n \<le> j \<and> j < k \<longrightarrow> \<not> stops_from rd (Suc n) (is_skip (rd n)) j"
      "y = ((lines @ kept (rd n)) @ concat (map (\<lambda>j. kept (rd j)) [Suc n..<k]), Suc k)"
      by simp_all
    have "\<forall>j. n \<le> j \<and> j < k \<longrightarrow> \<not> stops_from rd n skip j"
    proof (intro allI impI)
      fix j assume j: "n \<le> j \<and> j < k"
      show "\<not> stops_from rd n skip j"
      proof (cases "j = n")
        case True with False show ?thesis by simp
      next
        case False
        with j have sj: "Suc n \<le> j" by simp
        with k(3) j have "\<not> stops_from rd (Suc n) (is_skip (rd n)) j" by blast
        then show ?thesis unfolding stops_from_step [OF sj, of rd skip] .
      qed
    qed
    moreover have "stops_from rd n skip k"
      using k(2) unfolding stops_from_step [OF k(1), of rd skip] .
    moreover have "y = (lines @ concat (map (\<lambda>j. kept (rd j)) [n..<k]), Suc k)"
      using k(1,4) by (simp add: upt_conv_Cons)
    ultimately show ?thesis using k(1) by (intro exI [of _ k]) simp
  qed
qed

text \<open>
  Claim C2, amended. \<open>ReadLinesFromStdin\<close> returns exactly when some call of
  \<open>ReadLine\<close> is a stop: a blank line or end of stream that directly follows a blank
  line or end of stream (the flag is shared, so two blank lines, two ends of stream, or
  one of each in either order), or a read error other than the end of the stream. It
  makes no call after the first stop, and returns the lines before it that are not
  blank, each without its trailing CR and LF; with no stop it reads for ever. A single
  blank line is not returned and does not end the loop, and a line that is not blank
  clears the flag.
\<close>

theorem ReadLinesFromStdin_stops:
  "ReadLinesFromStdin rd = Some (ls, m) \<longleftrightarrow>
   (\<exists>k. m = Suc k \<and> stops_at rd k \<and> (\<forall>j < k. \<not> stops_at rd j) \<and> ls = kept_lines rd k)"
proof
  assume "ReadLinesFromStdin rd = Some (ls, m)"
  from loop_returned [OF this [unfolded ReadLinesFromStdin_def]]
  show "\<exists>k. m = Suc k \<and> stops_at rd k \<and> (\<forall>j < k. \<not> stops_at rd j) \<and> ls = kept_lines rd k"
    by (auto simp: stops_from_start kept_lines_def)
next
  assume "\<exists>k. m = Suc k \<and> stops_at rd k \<and> (\<forall>j < k. \<not> stops_at rd j) \<and> ls = kept_lines rd k"
  then obtain k where k: "m = Suc k" "stops_at rd k" "\<forall>j < k. \<not> stops_at rd j" "ls = kept_lines rd k"
    by blast
  show "ReadLinesFromStdin rd = Some (ls, m)"
    unfolding ReadLinesFromStdin_def
    using loop_returns [of 0 k rd False "[]"] k
    by (simp add: stops_from_start kept_lines_def)
qed

text \<open>On the lines \<open>"x", "", "", "y"\<close> the result is \<open>["x"]\<close>, after three calls.\<close>

theorem ReadLinesFromStdin_stops_witness:
  "ReadLinesFromStdin (stream_of [Line ''x'', Line '''', Line '''', Line ''y'']) = Some ([''x''], 3)"
proof -
  let ?rd = "stream_of [Line ''x'', Line '''', Line '''', Line ''y'']"
  have "stops_at ?rd 2"
    by (simp add: stops_at_def is_skip_def is_blank_def is_error_def stream_of_def TrimRight_def CR_def NL_def)
  moreover have "\<forall>j < 2. \<not> stops_at ?rd j"
    by (simp add: stops_at_def is_skip_def is_blank_def is_error_def stream_of_def TrimRight_def CR_def NL_def
        numeral_2_eq_2 less_Suc_eq)
  moreover have "kept_lines ?rd 2 = [''x'']"
    by (simp add: kept_lines_def kept_def stream_of_def TrimRight_def CR_def NL_def numeral_2_eq_2)
  ultimately show ?thesis
    using ReadLinesFromStdin_stops [of ?rd "[''x'']" 3] by (simp add: numeral_3_eq_3 numeral_2_eq_2)
qed

text \<open>
  Claim C2 as stated fails: after \<open>"x"\<close> and one blank line, the first end of stream
  ends the loop, and after \<open>"x"\<close> a read error ends it, though neither two blank
  lines nor two ends of stream were seen.
\<close>

theorem ReadLinesFromStdin_mixed_stop:
  "ReadLinesFromStdin (stream_of [Line ''x'', Line '''']) = Some ([''x''], 3) \<and>
   \<not> claimed_stop (stream_of [Line ''x'', Line '''']) 2 \<and>
   ReadLinesFromStdin (stream_of [Line ''x'', ReadError ''EIO'', Line ''y'']) = Some ([''x''], 2) \<and>
   \<not> claimed_stop (stream_of [Line ''x'', ReadError ''EIO'', Line ''y'']) 1"
  by (simp add: ReadLinesFromStdin_def ReadLinesFromStdin_loop.simps stream_of_def TrimRight_def
      claimed_stop_def is_blank_def CR_def NL_def)

lemma kept_eq: "kept r = (if kept r = [] then [] else [TrimRight (line_text r) [CR, NL]])"
  by (simp add: kept_def line_text_def split: read_result.splits)

lemma concat_kept:
  "concat (map (\<lambda>j. kept (rd j)) js) =
   map (\<lambda>j. TrimRight (line_text (rd j)) [CR, NL]) (filter (\<lambda>j. kept (rd j) \<noteq> []) js)"
proof (induction js)
  case Nil
  show ?case by simp
next
  case (Cons j js)
  show ?case using kept_eq [of "rd j"] Cons.IH by (cases "kept (rd j) = []") simp_all
qed

lemma TrimRight_last: "TrimRight s cutset \<noteq> [] \<Longrightarrow> last (TrimRight s cutset) \<notin> set cutset"
proof -
  assume ne: "TrimRight s cutset \<noteq> []"
  let ?d = "dropWhile (\<lambda>c. c \<in> set cutset) (rev s)"
  from ne have "?d \<noteq> []" by (simp add: TrimRight_def)
  then have "hd ?d \<notin> set cutset" using hd_dropWhile [of "\<lambda>c. c \<in> set cutset" "rev s"] by simp
  moreover have "last (TrimRight s cutset) = hd ?d"
    using \<open>?d \<noteq> []\<close> by (simp add: TrimRight_def last_rev)
  ultimately show ?thesis by simp
qed

lemma TrimRight_idem: "TrimRight (TrimRight s cutset) cutset = TrimRight s cutset"
proof (cases "dropWhile (\<lambda>c. c \<in> set cutset) (rev s)")
  case Nil
  then show ?thesis by (simp add: TrimRight_def)
next
  case (Cons c cs)
  then have "c \<notin> set cutset" using hd_dropWhile [of "\<lambda>c. c \<in> set cutset" "rev s"] by simp
  with Cons show ?thesis by (simp add: TrimRight_def)
qed

text \<open>
  Claim C8, amended. Every line \<open>ReadLinesFromStdin\<close> returns is a line of the
  input with its trailing CR and LF bytes removed and nothing else (white space at its
  start and other white space at its end stay); it is not empty and does not end with
  CR or LF; and the lines are in the order of the input.
\<close>

theorem ReadLinesFromStdin_lines:
  assumes "ReadLinesFromStdin rd = Some (ls, m)"
  shows "ls = map (\<lambda>j. TrimRight (line_text (rd j)) [CR, NL]) (kept_indices rd (m - 1)) \<and>
         sorted_wrt (<) (kept_indices rd (m - 1)) \<and>
         (\<forall>j \<in> set (kept_indices rd (m - 1)). j < m - 1 \<and> (\<exists>a. rd j = Line a)) \<and>
         (\<forall>l \<in> set ls. l \<noteq> [] \<and> last l \<noteq> CR \<and> last l \<noteq> NL \<and> TrimRight l [CR, NL] = l)"
proof -
  from loop_returned [OF assms [unfolded ReadLinesFromStdin_def]]
  have ls: "ls = concat (map (\<lambda>j. kept (rd j)) [0..<m - 1])" by auto
  have 1: "ls = map (\<lambda>j. TrimRight (line_text (rd j)) [CR, NL]) (kept_indices rd (m - 1))"
    unfolding ls kept_indices_def by (rule concat_kept)
  have 2: "sorted_wrt (<) (kept_indices rd (m - 1))"
    unfolding kept_indices_def by (rule sorted_wrt_filter) simp
  have 3: "\<forall>j \<in> set (kept_indices rd (m - 1)). j < m - 1 \<and> (\<exists>a. rd j = Line a)"
    by (auto simp: kept_indices_def kept_def split: read_result.splits)
  have 4: "\<forall>l \<in> set ls. l \<noteq> [] \<and> last l \<noteq> CR \<and> last l \<noteq> NL \<and> TrimRight l [CR, NL] = l"
  proof
    fix l assume "l \<in> set ls"
    then obtain j where "l \<in> set (kept (rd j))" unfolding ls by auto
    then obtain a where l: "l = TrimRight a [CR, NL]" and ne: "TrimRight a [CR, NL] \<noteq> []"
      by (auto simp: kept_def split: read_result.splits if_splits)
    from TrimRight_last [OF ne] have "last l \<noteq> CR \<and> last l \<noteq> NL" unfolding l by auto
    with l ne show "l \<noteq> [] \<and> last l \<noteq> CR \<and> last l \<noteq> NL \<and> TrimRight l [CR, NL] = l"
      by (simp add: TrimRight_idem)
  qed
  from 1 2 3 4 show ?thesis by blast
qed

theorem ReadLinesFromStdin_lines_witness:
  "ReadLinesFromStdin (stream_of [Line ''  x  '', Line '''', Line [CHR ''y'', CR]]) =
     Some ([''  x  '', ''y''], 5) \<and>
   kept_indices (stream_of [Line ''  x  '', Line '''', Line [CHR ''y'', CR]]) 4 = [0, 2] \<and>
   [''  x  '', ''y''] =
     map (\<lambda>j. TrimRight (line_text (stream_of [Line ''  x  '', Line '''', Line [CHR ''y'', CR]] j))
            [CR, NL]) [0, 2]"
proof -
  let ?rd = "stream_of [Line ''  x  '', Line '''', Line [CHR ''y'', CR]]"
  have r: "ReadLinesFromStdin ?rd = Some ([''  x  '', ''y''], 5)"
    by (simp add: ReadLinesFromStdin_def ReadLinesFromStdin_loop.simps stream_of_def
        TrimRight_def CR_def NL_def)
  have k: "kept_indices ?rd 4 = [0, 2]"
    by (simp add: kept_indices_def kept_def stream_of_def TrimRight_def CR_def NL_def
        upt_conv_Cons)
  from ReadLinesFromStdin_lines [OF r] k r show ?thesis by simp
qed

text \<open>
  Claim C8 as stated fails: the line \<open>"  x  "\<close> is returned with its spaces, while
  \<open>strings.TrimSpace\<close>, which \<open>LoadLines\<close> applies, gives \<open>"x"\<close>.
\<close>

theorem ReadLinesFromStdin_keeps_spaces:
  "ReadLinesFromStdin (stream_of [Line ''  x  '']) = Some ([''  x  ''], 3) \<and>
   TrimSpace ''  x  '' = ''x'' \<and>
   \<not> (\<forall>l \<in> set [''  x  '']. TrimSpace l = l)"
  by (simp add: ReadLinesFromStdin_def ReadLinesFromStdin_loop.simps stream_of_def
      TrimRight_def CR_def NL_def TrimSpace_def leading_space_def trailing_space_def
      space_runes_def)

subsection \<open>Reading CSV files\<close>

text \<open>
  When the first \<open>k\<close> calls of \<open>Read\<close> give records and the next one gives an
  error (the end of the file or a parse error), the loop returns those \<open>k\<close> records.
\<close>

lemma ReadCsvFile_loop_first_error:
  "(\<forall>j < k. snd (read_at r j) = None) \<Longrightarrow> snd (read_at r k) \<noteq> None \<Longrightarrow>
   ReadCsvFile_loop r raw = Some (raw @ map (\<lambda>j. fst (read_at r j)) [0..<k])"
proof (induction k arbitrary: r raw)
  case 0
  then show ?case
    by (subst ReadCsvFile_loop.simps) (auto split: prod.splits)
next
  case (Suc k)
  obtain row err r' where rd: "csv_Read r = ((row, err), r')"
    by (metis surj_pair)
  from Suc.prems(1) have "snd (read_at r 0) = None" by blast
  with rd have err: "err = None" by simp
  have a: "\<forall>j < k. snd (read_at r' j) = None"
  proof (intro allI impI)
    fix j assume "j < k"
    then have "snd (read_at r (Suc j)) = None"
      using Suc.prems(1) [rule_format, of "Suc j"] by simp
    with rd show "snd (read_at r' j) = None" by simp
  qed
  have b: "snd (read_at r' k) \<noteq> None" using Suc.prems(2) rd by simp
  have m: "map (\<lambda>j. fst (read_at r j)) [0..<Suc k] = row # map (\<lambda>j. fst (read_at r' j)) [0..<k]"
    using rd by (simp add: map_upt_Suc del: upt_Suc)
  show ?case
    using Suc.IH [OF a b, of "raw @ [row]"] rd err
    by (subst ReadCsvFile_loop.simps) (simp add: m del: upt_Suc)
qed

text \<open>
  A call of \<open>Read\<close> that gives a record takes at least one byte, so on a file, which
  is finite, some call gives an error: the loop of \<open>ReadCsvFile\<close> always returns.
\<close>

lemma readLine_err: "readLine inp = (line, e, rest) \<Longrightarrow> e = None \<or> e = Some EOF"
  by (auto simp: readLine_def split: list.splits if_splits)

lemma skip_empty_lines_rest:
  "skip_empty_lines inp = (line, e, rest) \<Longrightarrow> e \<noteq> Some EOF \<Longrightarrow> length rest < length inp"
proof (induction inp arbitrary: line e rest rule: skip_empty_lines.induct)
  case (1 inp)
  obtain l e1 r1 where rl: "readLine inp = (l, e1, r1)" by (metis prod_cases3)
  show ?case
  proof (cases "e1 = None \<and> length l = lengthNL l")
    case True
    then have "skip_empty_lines inp = skip_empty_lines r1"
      using rl by (subst skip_empty_lines.simps) simp
    with 1 rl True have "length rest < length r1" by auto
    moreover have "length r1 < length inp" using readLine_rest_less [of l r1 inp] rl True by simp
    ultimately show ?thesis by simp
  next
    case False
    then have "skip_empty_lines inp = (l, e1, r1)"
      using rl by (subst skip_empty_lines.simps) auto
    with 1(2,3) have "l = line" "e1 = e" "r1 = rest" by simp_all
    with rl readLine_err [OF rl] 1(3) have "readLine inp = (line, None, rest)" by auto
    then show ?thesis using readLine_rest_less [of line rest inp] by simp
  qed
qed

lemma parse_fields_comma:
  assumes "line = [] \<or> hd line \<noteq> DQUOTE" and "COMMA \<in> set line"
    and "DQUOTE \<notin> set (takeWhile (\<lambda>c. c \<noteq> COMMA) line)"
  shows "parse_fields line rest dst =
         parse_fields (tl (dropWhile (\<lambda>c. c \<noteq> COMMA) line)) rest
           (dst @ [takeWhile (\<lambda>c. c \<noteq> COMMA) line])"
  using assms by (subst parse_fields.simps) (simp add: Let_def)

lemma parse_fields_last:
  assumes "line = [] \<or> hd line \<noteq> DQUOTE" and "COMMA \<notin> set line"
    and "DQUOTE \<notin> set (take (length line - lengthNL line) line)"
  shows "parse_fields line rest dst =
         (dst @ [take (length line - lengthNL line) line], None, rest)"
  using assms by (subst parse_fields.simps) (simp add: Let_def)

lemma parse_fields_bare_quote:
  assumes "line = [] \<or> hd line \<noteq> DQUOTE"
    and "DQUOTE \<in> set (if COMMA \<in> set line then takeWhile (\<lambda>c. c \<noteq> COMMA) line
                        else take (length line - lengthNL line) line)"
  shows "parse_fields line rest dst = (dst, Some ErrBareQuote, rest)"
  using assms by (subst parse_fields.simps) (simp add: Let_def)

lemma parse_fields_quoted:
  assumes "line \<noteq> []" and "hd line = DQUOTE"
  shows "parse_fields line rest dst = parse_quoted (tl line) rest [] dst"
  using assms by (subst parse_fields.simps) simp

lemma parse_quoted_quote:
  assumes "DQUOTE \<in> set line"
  shows "parse_quoted line rest buf dst =
     (let buf' = buf @ takeWhile (\<lambda>c. c \<noteq> DQUOTE) line;
          line' = tl (dropWhile (\<lambda>c. c \<noteq> DQUOTE) line) in
      if line' \<noteq> [] \<and> hd line' = DQUOTE then parse_quoted (tl line') rest (buf' @ [DQUOTE]) dst
      else if line' \<noteq> [] \<and> hd line' = COMMA then parse_fields (tl line') rest (dst @ [buf'])
      else if lengthNL line' = length line' then (dst @ [buf'], None, rest)
      else (dst, Some ErrQuote, rest))"
  using assms by (subst parse_quoted.simps) simp

lemma parse_quoted_next_line:
  assumes "DQUOTE \<notin> set line" and "line \<noteq> []"
  shows "parse_quoted line rest buf dst =
         parse_quoted (fst (readLine rest)) (snd (snd (readLine rest))) (buf @ line) dst"
  using assms by (subst parse_quoted.simps) (simp split: prod.splits)

lemma parse_quoted_end:
  "parse_quoted [] rest buf dst = (dst, Some ErrQuote, rest)"
  by (subst parse_quoted.simps) simp

lemma parse_rest_le:
  shows "parse_fields line rest dst = (d, e, rest') \<Longrightarrow> length rest' \<le> length rest"
    and "parse_quoted qline qrest buf qdst = (d, e, rest') \<Longrightarrow> length rest' \<le> length qrest"
proof (induction line rest dst and qline qrest buf qdst arbitrary: d e rest' and d e rest'
    rule: parse_fields_parse_quoted.induct)
  case (1 line rest dst)
  let ?field = "if COMMA \<in> set line then takeWhile (\<lambda>c. c \<noteq> COMMA) line
                else take (length line - lengthNL line) line"
  show ?case
  proof (cases "line = [] \<or> hd line \<noteq> DQUOTE")
    case unq: True
    show ?thesis
    proof (cases "DQUOTE \<in> set ?field")
      case True
      with unq 1(3) show ?thesis by (simp add: parse_fields_bare_quote)
    next
      case nq: False
      show ?thesis
      proof (cases "COMMA \<in> set line")
        case True
        with nq have q: "DQUOTE \<notin> set (takeWhile (\<lambda>c. c \<noteq> COMMA) line)" by simp
        have "parse_fields (tl (dropWhile (\<lambda>c. c \<noteq> COMMA) line)) rest (dst @ [?field]) = (d, e, rest')"
          using 1(3) True by (simp add: parse_fields_comma [OF unq True q])
        from 1(1) [OF unq refl nq True this] show ?thesis .
      next
        case False
        with nq have "DQUOTE \<notin> set (take (length line - lengthNL line) line)" by simp
        from parse_fields_last [OF unq False this] 1(3) show ?thesis by simp
      qed
    qed
  next
    case False
    then have "parse_quoted (tl line) rest [] dst = (d, e, rest')"
      using 1(3) by (simp add: parse_fields_quoted)
    from 1(2) [OF False this] show ?thesis .
  qed
next
  case (2 line rest buf dst)
  let ?buf = "buf @ takeWhile (\<lambda>c. c \<noteq> DQUOTE) line"
  let ?line = "tl (dropWhile (\<lambda>c. c \<noteq> DQUOTE) line)"
  show ?case
  proof (cases "DQUOTE \<in> set line")
    case q: True
    note eq = 2(4) [unfolded parse_quoted_quote [OF q] Let_def]
    show ?thesis
    proof (cases "?line \<noteq> [] \<and> hd ?line = DQUOTE")
      case True
      with eq have "parse_quoted (tl ?line) rest (?buf @ [DQUOTE]) dst = (d, e, rest')" by simp
      from 2(1) [OF q refl refl True this] show ?thesis .
    next
      case nd: False
      show ?thesis
      proof (cases "?line \<noteq> [] \<and> hd ?line = COMMA")
        case True
        with eq nd have "parse_fields (tl ?line) rest (dst @ [?buf]) = (d, e, rest')" by simp
        from 2(2) [OF q refl refl nd True this] show ?thesis .
      next
        case False
        with eq nd show ?thesis by (simp split: if_splits)
      qed
    qed
  next
    case nq: False
    show ?thesis
    proof (cases "line = []")
      case True
      with 2(4) show ?thesis by (simp add: parse_quoted_end)
    next
      case False
      obtain l' e' r' where rl: "readLine rest = (l', e', r')" by (metis prod_cases3)
      have "parse_quoted l' r' (buf @ line) dst = (d, e, rest')"
        using 2(4) rl by (simp add: parse_quoted_next_line [OF nq False])
      from 2(3) [OF nq False rl [symmetric] refl this] have "length rest' \<le> length r'" .
      moreover have "length r' \<le> length rest" using readLine_length [OF rl [symmetric]] by simp
      ultimately show ?thesis by simp
    qed
  qed
qed

lemma csv_Read_consumes:
  assumes "csv_Read r = ((row, None), r')"
  shows "length (rinput r') < length (rinput r)"
proof -
  obtain line errRead rest where sk: "skip_empty_lines (rinput r) = (line, errRead, rest)"
    by (metis prod_cases3)
  obtain dst err rest' where pf: "parse_fields line rest [] = (dst, err, rest')"
    by (metis prod_cases3)
  from assms sk have ne: "errRead \<noteq> Some EOF"
    by (auto simp: csv_Read_def)
  with assms sk pf have "rinput r' = rest'"
    by (auto simp: csv_Read_def split: if_splits)
  moreover have "length rest' \<le> length rest" using parse_rest_le(1) [OF pf] .
  moreover have "length rest < length (rinput r)" using skip_empty_lines_rest [OF sk ne] .
  ultimately show ?thesis by simp
qed

lemma first_error_exists:
  "\<exists>k. (\<forall>j < k. snd (read_at r j) = None) \<and> snd (read_at r k) \<noteq> None"
proof (induction "length (rinput r)" arbitrary: r rule: less_induct)
  case less
  obtain row err r' where rd: "csv_Read r = ((row, err), r')" by (metis surj_pair)
  show ?case
  proof (cases err)
    case None
    with rd have "length (rinput r') < length (rinput r)" by (simp add: csv_Read_consumes)
    from less [OF this] obtain k where
      k: "\<forall>j < k. snd (read_at r' j) = None" "snd (read_at r' k) \<noteq> None" by blast
    have "\<forall>j < Suc k. snd (read_at r j) = None"
    proof (intro allI impI)
      fix j assume "j < Suc k"
      then show "snd (read_at r j) = None"
        using k(1) rd None by (cases j) simp_all
    qed
    moreover have "snd (read_at r (Suc k)) \<noteq> None" using k(2) rd by simp
    ultimately show ?thesis by blast
  next
    case (Some e)
    with rd have "snd (read_at r 0) \<noteq> None" by simp
    then show ?thesis by (intro exI [of _ 0]) simp
  qed
qed

lemma os_Open_handles:
  assumes "os_Open w p = (Inr file, w')"
  shows "file = p \<and> w' = w\<lparr>open_handles := p # open_handles w\<rparr> \<and> (\<exists>c. nodes w p = Regular c)"
  using assms by (auto simp: os_Open_def node_at_def split: node.splits if_splits)

lemma os_Open_fails:
  assumes "os_Open w p = (Inl err, w')"
  shows "w' = w"
  using assms by (auto simp: os_Open_def split: node.splits)

text \<open>
  Claim C5. When \<open>ReadCsvFile\<close> can open the file, there is a first call \<open>k\<close> of
  \<open>Read\<close> that fails, with a parse error (a malformed record) or with the end of the
  file, and \<open>ReadCsvFile\<close> returns exactly the \<open>k\<close> records read before it, in
  order: it stops at the first malformed record and keeps what it has, and it reads a
  well-formed file to its end.
\<close>

theorem ReadCsvFile_fail_fast:
  assumes "os_Open w (ValidateFilepath w fn) = (Inr file, w')"
  shows "\<exists>k. (\<forall>j < k. snd (read_at (csv_NewReader w' file) j) = None) \<and>
             snd (read_at (csv_NewReader w' file) k) \<noteq> None \<and>
             ReadCsvFile w fn =
               Some (map (\<lambda>j. fst (read_at (csv_NewReader w' file) j)) [0..<k], w')"
proof -
  from first_error_exists [of "csv_NewReader w' file"] obtain k where
    k: "\<forall>j < k. snd (read_at (csv_NewReader w' file) j) = None"
       "snd (read_at (csv_NewReader w' file) k) \<noteq> None" by blast
  from ReadCsvFile_loop_first_error [OF k, of "[]"] assms
  have "ReadCsvFile w fn = Some (map (\<lambda>j. fst (read_at (csv_NewReader w' file) j)) [0..<k], w')"
    by (simp add: ReadCsvFile_def)
  with k show ?thesis by blast
qed

text \<open>
  In \<open>bad.csv\<close> the third record is malformed: the two records before it are
  returned, the record after it is not.
\<close>

lemma demo_open_bad:
  "os_Open demo_world (ValidateFilepath demo_world ''bad.csv'') =
     (Inr ''/work/bad.csv'', demo_world\<lparr>open_handles := [''/work/bad.csv'']\<rparr>)"
  by (simp add: os_Open_def ValidateFilepath_def os_Stat_def node_at_def demo_world_def
      demo_abs_def demo_nodes_def)

lemma demo_read_bad:
  "map_option fst (ReadCsvFile demo_world ''bad.csv'') = Some [[''a'', ''b''], [''1'', ''2'']]"
  by code_simp

theorem ReadCsvFile_fail_fast_witness:
  "map_option fst (ReadCsvFile demo_world ''bad.csv'') = Some [[''a'', ''b''], [''1'', ''2'']] \<and>
   (\<exists>k. snd (read_at (csv_NewReader (demo_world\<lparr>open_handles := [''/work/bad.csv'']\<rparr>)
                  ''/work/bad.csv'') k) \<noteq> None \<and>
        ReadCsvFile demo_world ''bad.csv'' =
          Some (map (\<lambda>j. fst (read_at (csv_NewReader
                  (demo_world\<lparr>open_handles := [''/work/bad.csv'']\<rparr>) ''/work/bad.csv'') j)) [0..<k],
                demo_world\<lparr>open_handles := [''/work/bad.csv'']\<rparr>))"
  using ReadCsvFile_fail_fast [OF demo_open_bad] demo_read_bad by blast

subsection \<open>File handles\<close>

text \<open>
  \<open>ReadCsvFile\<close> returns with the handle it opened still open. \<open>LoadLines\<close> closes
  its handle, \<open>ReadFileBytes\<close> never holds one, and \<open>NewCsvFile\<close> hands its open
  handle to the caller.
\<close>

lemma ReadCsvFile_handle:
  assumes "os_Open w (ValidateFilepath w fn) = (Inr file, w')"
  shows "\<exists>raw. ReadCsvFile w fn = Some (raw, w') \<and> open_handles w' = file # open_handles w"
proof -
  from first_error_exists [of "csv_NewReader w' file"] obtain k where
    k: "\<forall>j < k. snd (read_at (csv_NewReader w' file) j) = None"
       "snd (read_at (csv_NewReader w' file) k) \<noteq> None" by blast
  from ReadCsvFile_loop_first_error [OF k, of "[]"] assms
  have "ReadCsvFile w fn = Some (map (\<lambda>j. fst (read_at (csv_NewReader w' file) j)) [0..<k], w')"
    by (simp add: ReadCsvFile_def)
  moreover have "open_handles w' = file # open_handles w"
    using os_Open_handles [OF assms] by simp
  ultimately show ?thesis by blast
qed

lemma LoadLines_closes: "open_handles (snd (LoadLines ScanLines w fn)) = open_handles w"
proof (cases "os_Open w (ValidateFilepath w fn)")
  case (Pair res w')
  show ?thesis
  proof (cases res)
    case (Inl err)
    with Pair have "os_Open w (ValidateFilepath w fn) = (Inl err, w')" by simp
    from os_Open_fails [OF this] Pair Inl show ?thesis by (simp add: LoadLines_def)
  next
    case (Inr f)
    with Pair have "os_Open w (ValidateFilepath w fn) = (Inr f, w')" by simp
    from os_Open_handles [OF this] Pair Inr show ?thesis
      by (simp add: LoadLines_def os_Close_def Let_def)
  qed
qed

lemma ReadFileBytes_closes: "snd (ReadFileBytes w fn) = w"
  by (simp add: ReadFileBytes_def split: sum.splits)

lemma NewCsvFile_handle:
  assumes "NewCsvFile w fn = (Some cw, w')"
  shows "open_handles w' = wfile cw # open_handles w"
  using assms
  by (auto simp: NewCsvFile_def os_Create_def csv_NewWriter_def
      split: sum.splits if_splits node.splits prod.splits)

lemma demo_read_in:
  "map_option (\<lambda>(raw, w). (raw, open_handles w)) (ReadCsvFile demo_world ''in.csv'') =
     Some ([[''a'', ''b''], [''1'', ''2'']], [''/work/in.csv''])"
  by code_simp

text \<open>
  Claim C7 says that every helper that reads closes its handle before it returns. For
  \<open>ReadCsvFile\<close> the code does not: it opens the file and has no call of \<open>Close\<close>
  on any path. Starting with no open handle, reading \<open>in.csv\<close> returns the table and
  leaves the handle of \<open>/work/in.csv\<close> open; \<open>LoadLines\<close> on the same file leaves
  none.
\<close>

theorem ReadCsvFile_leaves_handle_open:
  "open_handles demo_world = [] \<and>
   map_option (\<lambda>(raw, w). (raw, open_handles w)) (ReadCsvFile demo_world ''in.csv'') =
     Some ([[''a'', ''b''], [''1'', ''2'']], [''/work/in.csv'']) \<and>
   open_handles (snd (LoadLines ScanLines demo_world ''in.csv'')) = []"
  using demo_read_in LoadLines_closes [of ScanLines demo_world "''in.csv''"]
  by (simp add: demo_world_def)

subsection \<open>The CSV round trip\<close>

text \<open>Text without CR LF, and the lines the reader sees.\<close>

lemma crlf_free_append:
  "crlf_free (a @ b) \<longleftrightarrow>
   crlf_free a \<and> crlf_free b \<and> (a = [] \<or> b = [] \<or> last a \<noteq> CR \<or> hd b \<noteq> NL)"
proof (induction a rule: crlf_free.induct)
  case 1
  show ?case by simp
next
  case (2 c)
  show ?case by (cases b) auto
next
  case (3 x y s)
  then show ?case by auto
qed

lemma crlf_free_Cons: "crlf_free (c # s) \<Longrightarrow> crlf_free s"
  by (cases s) simp_all

lemma cur_line_Cons [simp]:
  "c \<noteq> NL \<Longrightarrow> cur_line (c # s) = c # cur_line s"
  "cur_line (NL # s) = [NL]"
  by (simp_all add: cur_line_def)

lemma next_lines_Cons [simp]:
  "c \<noteq> NL \<Longrightarrow> next_lines (c # s) = next_lines s"
  "next_lines (NL # s) = s"
  by (simp_all add: next_lines_def)

lemma cur_line_Nil [simp]: "cur_line [] = []" "next_lines [] = []"
  by (simp_all add: cur_line_def next_lines_def)

lemma cur_line_eq_Nil [simp]: "cur_line s = [] \<longleftrightarrow> s = []"
  by (auto simp: cur_line_def)

lemma cur_line_append:
  "NL \<notin> set a \<Longrightarrow> cur_line (a @ s) = a @ cur_line s"
  by (induction a) auto

lemma next_lines_append:
  "NL \<notin> set a \<Longrightarrow> next_lines (a @ s) = next_lines s"
  by (induction a) auto

lemma crlf_free_before_NL:
  "crlf_free (a @ NL # s) \<Longrightarrow> a \<noteq> [] \<Longrightarrow> last a \<noteq> CR"
  by (simp add: crlf_free_append)

lemma normalizeNL_id:
  assumes "a = [] \<or> last a \<noteq> CR"
  shows "normalizeNL (a @ [NL]) = a @ [NL]"
proof (cases a rule: rev_cases)
  case Nil
  then show ?thesis by (simp add: normalizeNL_def)
next
  case (snoc xs x)
  with assms have "x \<noteq> CR" by simp
  with snoc show ?thesis by (simp add: normalizeNL_def nth_append)
qed

lemma readLine_cur:
  assumes "NL \<in> set s" and "crlf_free s"
  shows "readLine s = (cur_line s, None, next_lines s)"
proof -
  let ?a = "takeWhile (\<lambda>c. c \<noteq> NL) s"
  from assms(1) obtain r where d: "dropWhile (\<lambda>c. c \<noteq> NL) s = NL # r"
    by (metis (mono_tags, lifting) dropWhile_eq_Nil_conv hd_dropWhile list.collapse)
  have s: "s = ?a @ NL # r" using takeWhile_dropWhile_id [of "\<lambda>c. c \<noteq> NL" s] d by simp
  then have "crlf_free (?a @ NL # r)" using assms(2) by simp
  then have "?a = [] \<or> last ?a \<noteq> CR" using crlf_free_before_NL by blast
  then have "normalizeNL (?a @ [NL]) = ?a @ [NL]" by (rule normalizeNL_id)
  with d assms(1) show ?thesis
    by (simp add: readLine_def cur_line_def next_lines_def)
qed

text \<open>
  Reading a quoted field: the body written by \<open>quote_body\<close>, then the closing quote
  and a comma or a newline, gives the field back, over as many lines as it has.
\<close>

lemma parse_quoted_shift:
  assumes "c \<noteq> DQUOTE" and "line \<noteq> []"
  shows "parse_quoted (c # line) rest buf dst = parse_quoted line rest (buf @ [c]) dst"
proof (cases "DQUOTE \<in> set line")
  case True
  then have "DQUOTE \<in> set (c # line)" by simp
  from parse_quoted_quote [OF this] parse_quoted_quote [OF True] assms(1)
  show ?thesis by simp
next
  case False
  with assms(1) have n: "DQUOTE \<notin> set (c # line)" by simp
  from parse_quoted_next_line [OF n] parse_quoted_next_line [OF False assms(2)]
  show ?thesis by simp
qed

lemma parse_quoted_body:
  assumes "crlf_free (quote_body f @ DQUOTE # t)" and "NL \<in> set t"
    and "hd t = COMMA \<or> hd t = NL"
  shows "parse_quoted (cur_line (quote_body f @ DQUOTE # t))
           (next_lines (quote_body f @ DQUOTE # t)) buf dst =
         (if hd t = COMMA
          then parse_fields (cur_line (tl t)) (next_lines (tl t)) (dst @ [buf @ f])
          else (dst @ [buf @ f], None, tl t))"
  using assms(1)
proof (induction f arbitrary: buf)
  case Nil
  from assms(2) obtain h after where t: "t = h # after" by (cases t) auto
  have dn: "DQUOTE \<noteq> NL" "COMMA \<noteq> NL" "COMMA \<noteq> DQUOTE" "NL \<noteq> DQUOTE"
    by (simp_all add: DQUOTE_def NL_def COMMA_def)
  show ?case
  proof (cases "h = COMMA")
    case True
    with t dn show ?thesis
      by (simp add: parse_quoted_quote)
  next
    case False
    with assms(3) t have "h = NL" by simp
    with t dn show ?thesis
      by (simp add: parse_quoted_quote lengthNL_def)
  qed
next
  case (Cons c f)
  let ?s = "quote_body f @ DQUOTE # t"
  have dn: "DQUOTE \<noteq> NL" by (simp add: DQUOTE_def NL_def)
  have s_ne: "cur_line ?s \<noteq> []" by simp
  have nl: "NL \<in> set ?s" using assms(2) by simp
  show ?case
  proof (cases "c = DQUOTE")
    case True
    from Cons.prems True have cf: "crlf_free ?s"
      using crlf_free_Cons [of DQUOTE "DQUOTE # ?s"] crlf_free_Cons [of DQUOTE ?s] by simp
    have "parse_quoted (cur_line (quote_body (c # f) @ DQUOTE # t))
            (next_lines (quote_body (c # f) @ DQUOTE # t)) buf dst =
          parse_quoted (cur_line ?s) (next_lines ?s) (buf @ [DQUOTE]) dst"
      using True dn by (simp add: parse_quoted_quote)
    with Cons.IH [OF cf, of "buf @ [DQUOTE]"] True show ?thesis by simp
  next
    case nq: False
    from Cons.prems nq have cf: "crlf_free ?s"
      using crlf_free_Cons [of c ?s] by simp
    show ?thesis
    proof (cases "c = NL")
      case True
      have "parse_quoted (cur_line (quote_body (c # f) @ DQUOTE # t))
              (next_lines (quote_body (c # f) @ DQUOTE # t)) buf dst =
            parse_quoted (cur_line ?s) (next_lines ?s) (buf @ [NL]) dst"
        using True nq dn readLine_cur [OF nl cf]
        by (simp add: parse_quoted_next_line)
      with Cons.IH [OF cf, of "buf @ [NL]"] True show ?thesis by simp
    next
      case False
      have "parse_quoted (cur_line (quote_body (c # f) @ DQUOTE # t))
              (next_lines (quote_body (c # f) @ DQUOTE # t)) buf dst =
            parse_quoted (cur_line ?s) (next_lines ?s) (buf @ [c]) dst"
        using False nq parse_quoted_shift [OF nq s_ne] by simp
      with Cons.IH [OF cf, of "buf @ [c]"] show ?thesis by simp
    qed
  qed
qed

lemma crlf_free_suffix: "crlf_free (a @ b) \<Longrightarrow> crlf_free b"
  by (simp add: crlf_free_append)

lemma takeWhile_until:
  "x \<notin> set a \<Longrightarrow> takeWhile (\<lambda>c. c \<noteq> x) (a @ x # b) = a"
  by (induction a) auto

lemma dropWhile_until:
  "x \<notin> set a \<Longrightarrow> dropWhile (\<lambda>c. c \<noteq> x) (a @ x # b) = x # b"
  by (induction a) auto

text \<open>Reading one field as written, and a whole record.\<close>

lemma unquoted_chars:
  assumes "\<not> fieldNeedsQuotes f"
  shows "NL \<notin> set f \<and> CR \<notin> set f \<and> DQUOTE \<notin> set f \<and> COMMA \<notin> set f"
  using assms by (auto simp: fieldNeedsQuotes_def split: if_splits)

lemma parse_fields_field:
  assumes "crlf_free (write_field f @ t)" and "NL \<in> set t" and "hd t = COMMA \<or> hd t = NL"
  shows "parse_fields (cur_line (write_field f @ t)) (next_lines (write_field f @ t)) dst =
         (if hd t = COMMA
          then parse_fields (cur_line (tl t)) (next_lines (tl t)) (dst @ [f])
          else (dst @ [f], None, tl t))"
proof (cases "fieldNeedsQuotes f")
  case True
  have dn: "DQUOTE \<noteq> NL" by (simp add: DQUOTE_def NL_def)
  from True have w: "write_field f @ t = DQUOTE # (quote_body f @ DQUOTE # t)"
    by (simp add: write_field_def)
  with assms(1) have cf: "crlf_free (quote_body f @ DQUOTE # t)"
    using crlf_free_Cons by simp
  have "parse_fields (cur_line (write_field f @ t)) (next_lines (write_field f @ t)) dst =
        parse_quoted (cur_line (quote_body f @ DQUOTE # t))
          (next_lines (quote_body f @ DQUOTE # t)) [] dst"
    unfolding w using dn by (simp add: parse_fields_quoted)
  with parse_quoted_body [OF cf assms(2,3), of "[]" dst] show ?thesis by simp
next
  case False
  note ch = unquoted_chars [OF False]
  from False have w: "write_field f = f" by (simp add: write_field_def)
  from assms(2) obtain h after where t: "t = h # after" by (cases t) auto
  have dn: "DQUOTE \<noteq> NL" "COMMA \<noteq> NL" "COMMA \<noteq> DQUOTE" "NL \<noteq> DQUOTE"
    by (simp_all add: DQUOTE_def NL_def COMMA_def)
  have cl: "cur_line (f @ t) = f @ cur_line t" and nl: "next_lines (f @ t) = next_lines t"
    using ch by (simp_all add: cur_line_append next_lines_append)
  show ?thesis
  proof (cases "h = COMMA")
    case True
    let ?line = "f @ COMMA # cur_line after"
    have u: "?line = [] \<or> hd ?line \<noteq> DQUOTE"
      using ch dn by (cases f) auto
    have c: "COMMA \<in> set ?line" by simp
    have tw: "takeWhile (\<lambda>c. c \<noteq> COMMA) ?line = f"
      using ch by (simp add: takeWhile_until)
    have dw: "dropWhile (\<lambda>c. c \<noteq> COMMA) ?line = COMMA # cur_line after"
      using ch by (simp add: dropWhile_until)
    have q: "DQUOTE \<notin> set (takeWhile (\<lambda>c. c \<noteq> COMMA) ?line)"
      unfolding tw using ch by simp
    have "parse_fields ?line (next_lines after) dst =
          parse_fields (cur_line after) (next_lines after) (dst @ [f])"
      using parse_fields_comma [OF u c q, of "next_lines after" dst] unfolding tw dw by simp
    then show ?thesis
      using True t dn by (simp add: w cur_line_append next_lines_append ch)
  next
    case False
    with assms(3) t have h: "h = NL" by simp
    let ?line = "f @ [NL]"
    have u: "?line = [] \<or> hd ?line \<noteq> DQUOTE"
      using ch dn by (cases f) auto
    have c: "COMMA \<notin> set ?line" using ch dn by simp
    have tk: "take (length ?line - lengthNL ?line) ?line = f"
      by (simp add: lengthNL_def)
    have q: "DQUOTE \<notin> set (take (length ?line - lengthNL ?line) ?line)"
      unfolding tk using ch by simp
    have "parse_fields ?line after dst = (dst @ [f], None, after)"
      using parse_fields_last [OF u c q, of after dst] unfolding tk .
    then show ?thesis
      using h t dn by (simp add: w cur_line_append next_lines_append ch)
  qed
qed

lemma write_fields_tail: "0 < n \<Longrightarrow> write_fields n fds = fields_tail fds"
  by (induction fds arbitrary: n) (simp_all add: fields_tail_def)

lemma write_fields_first: "write_fields 0 (f # fds) = write_field f @ fields_tail fds"
  by (simp add: write_fields_tail)

lemma parse_fields_record:
  assumes "crlf_free (write_field f @ fields_tail fds @ NL # after)"
  shows "parse_fields (cur_line (write_field f @ fields_tail fds @ NL # after))
           (next_lines (write_field f @ fields_tail fds @ NL # after)) dst =
         (dst @ f # fds, None, after)"
  using assms
proof (induction fds arbitrary: f dst)
  case Nil
  from parse_fields_field [of f "NL # after" dst] Nil
  show ?case
    by (simp add: fields_tail_def NL_def COMMA_def)
next
  case (Cons g gs)
  let ?t = "COMMA # write_field g @ fields_tail gs @ NL # after"
  have ft: "fields_tail (g # gs) @ NL # after = ?t" by (simp add: fields_tail_def)
  from Cons.prems have cf: "crlf_free (write_field f @ ?t)" by (simp add: ft)
  then have "crlf_free ?t" by (rule crlf_free_suffix)
  then have cf': "crlf_free (write_field g @ fields_tail gs @ NL # after)"
    by (rule crlf_free_Cons)
  from parse_fields_field [OF cf, of dst]
  have "parse_fields (cur_line (write_field f @ ?t)) (next_lines (write_field f @ ?t)) dst =
        parse_fields (cur_line (write_field g @ fields_tail gs @ NL # after))
          (next_lines (write_field g @ fields_tail gs @ NL # after)) (dst @ [f])"
    by simp
  with Cons.IH [OF cf', of "dst @ [f]"] show ?case by (simp add: ft)
qed

lemma write_field_eq_Nil: "write_field f = [] \<longleftrightarrow> f = []"
  by (auto simp: write_field_def fieldNeedsQuotes_def)

lemma write_fields_eq_Nil: "write_fields 0 rec = [] \<longleftrightarrow> rec = [] \<or> rec = [[]]"
proof (cases rec)
  case Nil
  then show ?thesis by simp
next
  case (Cons f fds)
  have "fields_tail fds = [] \<longleftrightarrow> fds = []" by (cases fds) (simp_all add: fields_tail_def)
  with Cons show ?thesis by (simp add: write_fields_first write_field_eq_Nil del: write_fields.simps)
qed

lemma hd_write_fields:
  assumes "rec \<noteq> []" and "rec \<noteq> [[]]"
  shows "hd (write_fields 0 rec @ NL # after) \<noteq> NL"
proof -
  from assms obtain f fds where r: "rec = f # fds" by (cases rec) auto
  have wne: "write_fields 0 rec \<noteq> []" using assms by (simp add: write_fields_eq_Nil)
  show ?thesis
  proof (cases "fieldNeedsQuotes f")
    case True
    then show ?thesis
      unfolding r write_fields_first by (simp add: write_field_def DQUOTE_def NL_def)
  next
    case False
    note ch = unquoted_chars [OF False]
    show ?thesis
    proof (cases f)
      case Nil
      with r assms obtain g gs where "fds = g # gs" by (cases fds) auto
      with Nil r show ?thesis
        unfolding r write_fields_first
        by (simp add: write_field_def fieldNeedsQuotes_def fields_tail_def COMMA_def NL_def)
    next
      case (Cons c cs)
      with ch False show ?thesis
        unfolding r write_fields_first by (auto simp: write_field_def)
    qed
  qed
qed

lemma skip_empty_lines_record:
  assumes "rec \<noteq> []" and "rec \<noteq> [[]]" and "crlf_free (write_fields 0 rec @ NL # after)"
  shows "skip_empty_lines (write_fields 0 rec @ NL # after) =
         (cur_line (write_fields 0 rec @ NL # after), None,
          next_lines (write_fields 0 rec @ NL # after))"
proof -
  let ?s = "write_fields 0 rec @ NL # after"
  have nl: "NL \<in> set ?s" by simp
  obtain c cs where s: "?s = c # cs" by (cases ?s) auto
  with hd_write_fields [OF assms(1,2), of after] have c: "c \<noteq> NL" by simp
  have "NL \<in> set cs" using nl s c by (metis set_ConsD)
  then have "length (cur_line ?s) \<noteq> lengthNL (cur_line ?s)"
    unfolding s using c by (simp add: lengthNL_def cur_line_def)
  with readLine_cur [OF nl assms(3)] show ?thesis
    by (subst skip_empty_lines.simps) simp
qed

lemma csv_Read_record:
  assumes "rinput r = write_fields 0 rec @ NL # after"
    and "rec \<noteq> []" and "rec \<noteq> [[]]" and "crlf_free (rinput r)"
    and "FieldsPerRecord r = 0 \<or> FieldsPerRecord r = length rec"
  shows "csv_Read r = ((rec, None), r\<lparr>rinput := after, FieldsPerRecord := length rec\<rparr>)"
proof -
  from assms(2) obtain f fds where rec: "rec = f # fds" by (cases rec) auto
  have cf: "crlf_free (write_field f @ fields_tail fds @ NL # after)"
    using assms(1,4) by (simp add: rec write_fields_first del: write_fields.simps)
  have sk: "skip_empty_lines (rinput r) =
      (cur_line (write_fields 0 rec @ NL # after), None, next_lines (write_fields 0 rec @ NL # after))"
    using skip_empty_lines_record [OF assms(2,3)] assms(1,4) by simp
  have pf: "parse_fields (cur_line (write_fields 0 rec @ NL # after))
      (next_lines (write_fields 0 rec @ NL # after)) [] = (rec, None, after)"
    using parse_fields_record [OF cf, of "[]"]
    by (simp add: rec write_fields_first del: write_fields.simps)
  show ?thesis
    using assms(5) by (auto simp: csv_Read_def sk pf)
qed

lemma csv_Read_eof:
  assumes "rinput r = []"
  shows "csv_Read r = (([], Some EOF), r)"
proof -
  have "skip_empty_lines [] = ([], Some EOF, [])"
    by (subst skip_empty_lines.simps) (simp add: readLine_def)
  with assms show ?thesis by (simp add: csv_Read_def)
qed

lemma ReadCsvFile_loop_records:
  assumes "rinput r = encode_records recs" and "crlf_free (rinput r)"
    and "\<forall>rec \<in> set recs. rec \<noteq> [] \<and> rec \<noteq> [[]] \<and> length rec = n"
    and "FieldsPerRecord r = 0 \<or> FieldsPerRecord r = n"
  shows "ReadCsvFile_loop r raw = Some (raw @ recs)"
  using assms
proof (induction recs arbitrary: r raw)
  case Nil
  then have "rinput r = []" by (simp add: encode_records_def)
  from csv_Read_eof [OF this] show ?case
    by (subst ReadCsvFile_loop.simps) simp
next
  case (Cons rec recs)
  let ?after = "encode_records recs"
  let ?r' = "r\<lparr>rinput := ?after, FieldsPerRecord := length rec\<rparr>"
  have inp: "rinput r = write_fields 0 rec @ NL # ?after"
    using Cons.prems(1) by (simp add: encode_records_def)
  have g: "rec \<noteq> []" "rec \<noteq> [[]]" "length rec = n" using Cons.prems(3) by simp_all
  have rd: "csv_Read r = ((rec, None), ?r')"
    using csv_Read_record [OF inp g(1,2) Cons.prems(2)] Cons.prems(4) g(3) by simp
  have cf: "crlf_free (rinput ?r')"
    using Cons.prems(2) unfolding inp
    using crlf_free_append [of "write_fields 0 rec @ [NL]" ?after] by simp
  have "ReadCsvFile_loop ?r' (raw @ [rec]) = Some ((raw @ [rec]) @ recs)"
    using Cons.IH [of ?r' "raw @ [rec]"] cf Cons.prems(3) g(3) by simp
  with rd show ?case
    by (subst ReadCsvFile_loop.simps) simp
qed

text \<open>What \<open>Write\<close> emits for fields without CR LF has no CR LF either.\<close>

lemma segment_append: "segment a \<Longrightarrow> segment b \<Longrightarrow> segment (a @ b)"
  by (cases "a = []"; cases "b = []") (auto simp: segment_def crlf_free_append)

lemma crlf_free_quote_body: "crlf_free f \<Longrightarrow> crlf_free (quote_body f)"
proof (induction f rule: crlf_free.induct)
  case 1
  show ?case by simp
next
  case (2 c)
  show ?case by (simp add: DQUOTE_def CR_def NL_def)
next
  case (3 a b s)
  from 3 have ih: "crlf_free (quote_body (b # s))" and ab: "a \<noteq> CR \<or> b \<noteq> NL" by simp_all
  let ?qa = "if a = DQUOTE then [DQUOTE, DQUOTE] else [a]"
  have q: "quote_body (a # b # s) = ?qa @ quote_body (b # s)" by simp
  have "crlf_free ?qa" by (simp add: DQUOTE_def CR_def NL_def)
  moreover have "last ?qa \<noteq> CR \<or> hd (quote_body (b # s)) \<noteq> NL"
    using ab by (auto simp: DQUOTE_def CR_def NL_def)
  ultimately show ?case
    unfolding q using ih by (subst crlf_free_append) auto
qed

lemma crlf_free_tail_quote: "crlf_free s \<Longrightarrow> crlf_free (s @ [DQUOTE])"
  by (simp add: crlf_free_append DQUOTE_def NL_def)

lemma crlf_free_head_quote: "crlf_free s \<Longrightarrow> crlf_free (DQUOTE # s)"
  using crlf_free_append [of "[DQUOTE]" s] by (simp add: DQUOTE_def CR_def)

lemma segment_write_field:
  assumes "crlf_free f"
  shows "segment (write_field f)"
proof (cases "fieldNeedsQuotes f")
  case True
  have "crlf_free (DQUOTE # quote_body f @ [DQUOTE])"
    using assms by (intro crlf_free_head_quote crlf_free_tail_quote crlf_free_quote_body)
  with True show ?thesis
    by (simp add: segment_def write_field_def DQUOTE_def NL_def CR_def)
next
  case False
  note ch = unquoted_chars [OF False]
  have "f = [] \<or> (hd f \<noteq> NL \<and> last f \<noteq> CR)"
    using ch by (cases f) (auto dest: last_in_set)
  with False assms show ?thesis by (simp add: segment_def write_field_def)
qed

lemma segment_comma: "segment [COMMA]"
  by (simp add: segment_def COMMA_def NL_def CR_def)

lemma segment_fields_tail:
  "\<forall>f \<in> set fds. crlf_free f \<Longrightarrow> segment (fields_tail fds)"
proof (induction fds)
  case Nil
  show ?case by (simp add: fields_tail_def segment_def)
next
  case (Cons g gs)
  have "fields_tail (g # gs) = [COMMA] @ write_field g @ fields_tail gs"
    by (simp add: fields_tail_def)
  with Cons show ?case
    by (simp add: segment_append segment_comma segment_write_field del: append.simps)
qed

lemma segment_write_fields:
  "\<forall>f \<in> set rec. crlf_free f \<Longrightarrow> segment (write_fields 0 rec)"
proof (cases rec)
  case Nil
  then show ?thesis by (simp add: segment_def)
next
  case (Cons f fds)
  assume "\<forall>f \<in> set rec. crlf_free f"
  with Cons show ?thesis
    unfolding Cons write_fields_first
    by (simp add: segment_append segment_write_field segment_fields_tail)
qed

lemma ends_clean_append: "ends_clean a \<Longrightarrow> ends_clean b \<Longrightarrow> ends_clean (a @ b)"
  by (cases "a = []"; cases "b = []") (auto simp: ends_clean_def crlf_free_append)

lemma ends_clean_line: "segment a \<Longrightarrow> ends_clean (a @ [NL])"
  by (auto simp: ends_clean_def segment_def crlf_free_append NL_def CR_def)

lemma ends_clean_encode_records:
  "\<forall>rec \<in> set recs. \<forall>f \<in> set rec. crlf_free f \<Longrightarrow> ends_clean (encode_records recs)"
proof (induction recs)
  case Nil
  show ?case by (simp add: encode_records_def ends_clean_def)
next
  case (Cons rec recs)
  have "encode_records (rec # recs) = (write_fields 0 rec @ [NL]) @ encode_records recs"
    by (simp add: encode_records_def)
  with Cons show ?case
    by (simp add: ends_clean_append ends_clean_line segment_write_fields del: append_assoc)
qed

text \<open>On a fresh path \<open>CommaSep\<close> creates the file with the bytes of all records.\<close>

lemma CommaSep_loop_buf:
  "CommaSep_loop cw vs = cw\<lparr>wbuf := wbuf cw @ encode_records vs\<rparr>"
  by (induction vs arbitrary: cw) (simp_all add: csv_Write_def encode_records_def)

lemma CommaSep_fresh:
  assumes "abs_path w fn = Inr fp" and "fp \<noteq> []" and "nodes w fp = Absent"
  shows "CommaSep w fn headers vals =
         w\<lparr>nodes := (nodes w)(fp := Regular (encode_records (headers # vals))),
           open_handles := fp # open_handles w\<rparr>"
proof -
  have fe: "\<not> FileExists w fp"
    using assms by (simp add: FileExists_def os_Stat_def node_at_def os_IsNotExist_def)
  have cr: "os_Create w fp =
      (Inr fp, w\<lparr>nodes := (nodes w)(fp := Regular []), open_handles := fp # open_handles w\<rparr>)"
    using assms by (simp add: os_Create_def node_at_def)
  have nc: "NewCsvFile w fn =
      (Some (csv_NewWriter fp),
       w\<lparr>nodes := (nodes w)(fp := Regular []), open_handles := fp # open_handles w\<rparr>)"
    using assms(1) fe cr by (simp add: NewCsvFile_def)
  show ?thesis
    by (simp add: CommaSep_def nc csv_Write_def csv_NewWriter_def CommaSep_loop_buf
        csv_Flush_def file_append_def encode_records_def)
qed

text \<open>\<open>CommaSep\<close> too returns with the handle of the file it created still open.\<close>

lemma CommaSep_leaves_handle_open:
  assumes "abs_path w fn = Inr fp" and "fp \<noteq> []" and "nodes w fp = Absent"
  shows "open_handles (CommaSep w fn headers vals) = fp # open_handles w"
  by (simp add: CommaSep_fresh [OF assms])

text \<open>
  Claim C1, amended. Let the path resolve to a place where nothing exists and a file
  can be created. If no record (the header row or a data row) is empty or is a single
  empty field, every data row has as many fields as the header row, and no field has a
  CR directly followed by LF, then writing with \<open>CommaSep\<close> and reading the path back
  with \<open>ReadCsvFile\<close> returns the header row followed by the data rows in order,
  every field unchanged.
\<close>

theorem CommaSep_ReadCsvFile_roundtrip:
  assumes "abs_path w fn = Inr fp" and "fp \<noteq> []" and "nodes w fp = Absent"
    and "\<forall>rec \<in> set (headers # vals).
           rec \<noteq> [] \<and> rec \<noteq> [[]] \<and> length rec = length headers \<and> (\<forall>f \<in> set rec. crlf_free f)"
  shows "map_option fst (ReadCsvFile (CommaSep w fn headers vals) fn) = Some (headers # vals)"
proof -
  let ?content = "encode_records (headers # vals)"
  let ?w2 = "w\<lparr>nodes := (nodes w)(fp := Regular ?content), open_handles := fp # open_handles w\<rparr>"
  let ?w3 = "?w2\<lparr>open_handles := fp # open_handles ?w2\<rparr>"
  have w2: "CommaSep w fn headers vals = ?w2" by (rule CommaSep_fresh [OF assms(1-3)])
  have vf: "ValidateFilepath ?w2 fn = fp"
    using assms(1,2) by (simp add: ValidateFilepath_def os_Stat_def node_at_def)
  have op: "os_Open ?w2 fp = (Inr fp, ?w3)"
    using assms(2) by (simp add: os_Open_def node_at_def)
  let ?r = "csv_NewReader ?w3 fp"
  have ri: "rinput ?r = ?content" and fpr: "FieldsPerRecord ?r = 0"
    by (simp_all add: csv_NewReader_def file_content_def)
  have cf: "crlf_free (rinput ?r)"
    using ends_clean_encode_records [of "headers # vals"] assms(4)
    unfolding ri by (simp add: ends_clean_def)
  have "\<forall>rec \<in> set (headers # vals). rec \<noteq> [] \<and> rec \<noteq> [[]] \<and> length rec = length headers"
    using assms(4) by blast
  from ReadCsvFile_loop_records [OF ri cf this, of "[]"] fpr
  have "ReadCsvFile_loop ?r [] = Some (headers # vals)" by simp
  then show ?thesis
    unfolding w2 by (simp add: ReadCsvFile_def vf op)
qed

theorem CommaSep_ReadCsvFile_roundtrip_witness:
  "map_option fst (ReadCsvFile (CommaSep demo_world ''out.csv'' demo_headers demo_rows) ''out.csv'')
     = Some (demo_headers # demo_rows)"
proof -
  have a: "abs_path demo_world ''out.csv'' = Inr ''/work/out.csv''"
    by (simp add: demo_world_def demo_abs_def)
  have b: "''/work/out.csv'' \<noteq> []" by simp
  have c: "nodes demo_world ''/work/out.csv'' = Absent"
    by (simp add: demo_world_def demo_nodes_def)
  have d: "\<forall>rec \<in> set (demo_headers # demo_rows).
           rec \<noteq> [] \<and> rec \<noteq> [[]] \<and> length rec = length demo_headers \<and> (\<forall>f \<in> set rec. crlf_free f)"
    by (simp add: demo_headers_def demo_rows_def DQUOTE_def NL_def CR_def)
  from CommaSep_ReadCsvFile_roundtrip [OF a b c d] show ?thesis .
qed

text \<open>
  Claim C1 as stated fails. With a data row shorter than the header the reader stops
  at that row with a field-count error and returns the header only; a row that is a
  single empty field is written as an empty line, which the reader skips; and CR LF
  inside a field is read back as LF.
\<close>

theorem CommaSep_ReadCsvFile_lossy:
  "map_option fst (ReadCsvFile (CommaSep demo_world ''out.csv'' [''a'', ''b''] [[''1''], [''2'', ''3'']])
      ''out.csv'') = Some [[''a'', ''b'']] \<and>
   map_option fst (ReadCsvFile (CommaSep demo_world ''out.csv'' [''a'', ''b''] [[''1''], [''2'', ''3'']])
      ''out.csv'') \<noteq> Some ([''a'', ''b''] # [[''1''], [''2'', ''3'']]) \<and>
   map_option fst (ReadCsvFile (CommaSep demo_world ''out.csv'' [''a''] [[''''], [''x'']])
      ''out.csv'') = Some [[''a''], [''x'']] \<and>
   map_option fst (ReadCsvFile (CommaSep demo_world ''out.csv'' [''a''] [[[CHR ''x'', CR, NL, CHR ''y'']]])
      ''out.csv'') = Some [[''a''], [[CHR ''x'', NL, CHR ''y'']]]"
  by code_simp

end
